theory Spec2Isabelle
  imports Main "HOL-Library.Word" "HOL-Library.Sublist"
begin

section \<open>AqLedLightning: the aquarium LED controller of \<open>src/main.cpp\<close>\<close>

text \<open>
  The firmware keeps its whole state in global variables and in function-local statics.
  They are collected in one record, and every function of the source becomes a function
  from the state (and the values the hardware or the network hands in) to the new state
  and the outputs it produced. Modelled are the debug log (\<open>dbgprint\<close>, \<open>cb_logging\<close>),
  the timer, the handlers of the schedule, the override and the files, and \<open>loop\<close>; the
  WiFi scan and connection, OTA, mDNS and the reset and test handlers are left out.
\<close>

type_synonym u8 = "8 word"
type_synonym u32 = "32 word"

subsection \<open>The library calls the source relies on\<close>

text \<open>
  \<open>String::toInt\<close> is \<open>atol\<close>, which is \<open>strtol\<close> in base 10: leading white space is
  skipped, one sign is read, then decimal digits up to the first other character; a value
  beyond the range of \<open>long\<close> (32 bits on this target) saturates. A \<open>string\<close> stands for
  the characters of an Arduino \<open>String\<close> before its terminating NUL.
\<close>

definition isspace_c :: "char \<Rightarrow> bool" where
  "isspace_c c = (c = CHR '' '' \<or> (9 \<le> (of_char c :: nat) \<and> (of_char c :: nat) \<le> 13))"

definition isdigit_c :: "char \<Rightarrow> bool" where
  "isdigit_c c = (48 \<le> (of_char c :: nat) \<and> (of_char c :: nat) \<le> 57)"

definition digit_val :: "char \<Rightarrow> int" where
  "digit_val c = int (of_char c) - 48"

definition LONG_MAX :: int where
  "LONG_MAX = 2147483647"

definition LONG_MIN :: int where
  "LONG_MIN = - 2147483648"

fun digits_acc :: "int \<Rightarrow> string \<Rightarrow> int" where
  "digits_acc acc [] = acc"
| "digits_acc acc (c # cs) =
     (if isdigit_c c then digits_acc (acc * 10 + digit_val c) cs else acc)"

definition atol :: "string \<Rightarrow> int" where
  "atol s =
     (case dropWhile isspace_c s of
        [] \<Rightarrow> 0
      | c # cs \<Rightarrow>
          if c = CHR ''-'' then max LONG_MIN (- digits_acc 0 cs)
          else if c = CHR ''+'' then min LONG_MAX (digits_acc 0 cs)
          else min LONG_MAX (digits_acc 0 (c # cs)))"

definition toInt :: "string \<Rightarrow> int" where
  "toInt s = atol s"

text \<open>
  \<open>value.indexOf ( "," )\<close>: the position of the first occurrence, \<open>-1\<close> when there is
  none. The source only ever searches for the one-character string \<open>","\<close>.
\<close>

fun indexOf_from :: "nat \<Rightarrow> string \<Rightarrow> char \<Rightarrow> int" where
  "indexOf_from k [] c = - 1"
| "indexOf_from k (x # xs) c = (if x = c then int k else indexOf_from (Suc k) xs c)"

definition indexOf :: "string \<Rightarrow> char \<Rightarrow> int" where
  "indexOf s c = indexOf_from 0 s c"

text \<open>\<open>value.substring ( left )\<close>: the rest from position \<open>left\<close>, empty when \<open>left\<close> is
  at or beyond the end.\<close>

definition substring :: "string \<Rightarrow> nat \<Rightarrow> string" where
  "substring s left = (if left \<ge> length s then [] else drop left s)"

text \<open>\<open>filename.endsWith ( suffix )\<close>, comparing characters exactly.\<close>

definition endsWith :: "string \<Rightarrow> string \<Rightarrow> bool" where
  "endsWith s suf = (length suf \<le> length s \<and> drop (length s - length suf) s = suf)"

text \<open>Decimal printing: \<open>String ( uint8_t )\<close> and the \<open>%02d\<close> of \<open>sprintf\<close>.\<close>

definition digit_char :: "nat \<Rightarrow> char" where
  "digit_char d = ''0123456789'' ! d"

fun dec_nat :: "nat \<Rightarrow> string" where
  "dec_nat n = (if n < 10 then [digit_char n] else dec_nat (n div 10) @ [digit_char (n mod 10)])"

declare dec_nat.simps [simp del]

definition two_digits :: "nat \<Rightarrow> string" where
  "two_digits n = (if n < 10 then CHR ''0'' # dec_nat n else dec_nat n)"

text \<open>A C string ends at its first NUL.\<close>

definition cstr :: "string \<Rightarrow> string" where
  "cstr s = takeWhile (\<lambda>c. c \<noteq> CHR 0x00) s"

text \<open>TimeLib's \<open>hour\<close>, \<open>minute\<close> and \<open>second\<close> break down \<open>(uint32_t) t\<close>.\<close>

definition hour :: "u32 \<Rightarrow> nat" where
  "hour t = (unat t div 3600) mod 24"

definition minute :: "u32 \<Rightarrow> nat" where
  "minute t = (unat t div 60) mod 60"

definition second :: "u32 \<Rightarrow> nat" where
  "second t = unat t mod 60"

subsection \<open>The state\<close>

text \<open>
  The globals \<open>dbglines\<close>, \<open>intensityA\<close>, \<open>intensityB\<close>, \<open>ltime\<close>, \<open>settings\<close>,
  \<open>overrule\<close>, \<open>ovA\<close>, \<open>ovB\<close>; the committed content of the EEPROM; the statics
  \<open>time_ok\<close> and \<open>rfrltm\<close> of \<open>loop\<close>; the statics \<open>i\<close>, \<open>nrl\<close>, \<open>linebuf\<close> and \<open>p_in\<close> of
  \<open>cb_logging\<close>. Of \<open>ltime\<close> the low 32 bits are kept, which is what TimeLib reads.
  \<open>linebuf\<close> holds the characters before the NUL, \<open>p_in\<close> is an offset into it, and
  \<open>None\<close> is the null pointer a static pointer starts as.
\<close>

record state =
  dbglines :: "string list"
  intensityA :: u8
  intensityB :: u8
  ltime :: u32
  settings :: "u8 list"
  overrule :: bool
  ovA :: u8
  ovB :: u8
  eeprom :: "u8 list"
  time_ok :: bool
  rfrltm :: u32
  cb_i :: nat
  cb_nrl :: nat
  linebuf :: string
  p_in :: "nat option"

text \<open>The state when \<open>setup\<close> has read the settings block: \<open>EEPROM.begin ( 512 )\<close>,
  \<open>EEPROM.get ( 0, settings )\<close>, every other global zero-initialised.\<close>

definition power_on :: "u8 list \<Rightarrow> state" where
  "power_on ee =
     \<lparr>dbglines = [], intensityA = 0, intensityB = 0, ltime = 0,
      settings = take 48 ee, overrule = False, ovA = 0, ovB = 0, eeprom = ee,
      time_ok = False, rfrltm = 0, cb_i = 0, cb_nrl = 0, linebuf = [], p_in = None\<rparr>"

text \<open>What leaves the device: a PWM write to a lamp, or the answer to an HTTP request.\<close>

datatype lamp = LAMPA | LAMPB

type_synonym pwm_write = "lamp \<times> u8"

datatype response =
    Send nat string string
  | SendFS string string

subsection \<open>\<open>dbgprint\<close>\<close>

text \<open>
  \<open>msg\<close> is the expanded format; \<open>vsnprintf\<close> keeps at most 149 characters of it in
  \<open>sbuf\<close>. \<open>DEBUG\<close> is the constant 1. \<open>heap\<close> is what \<open>ESP.getFreeHeap()\<close> returns at
  the call. The serial output is not part of the state.
\<close>

definition DEBUG_BUFFER_SIZE :: nat where
  "DEBUG_BUFFER_SIZE = 150"

definition tbuf :: "u32 \<Rightarrow> string" where
  "tbuf t = two_digits (hour t) @ '':'' @ two_digits (minute t) @ '':'' @
            two_digits (second t) @ '' - ''"

definition dbgline :: "u32 \<Rightarrow> string \<Rightarrow> string" where
  "dbgline t msg = tbuf t @ take (DEBUG_BUFFER_SIZE - 1) (cstr msg)"

definition dbgprint :: "nat \<Rightarrow> string \<Rightarrow> state \<Rightarrow> state" where
  "dbgprint heap msg st =
     (if heap > 8000 then st\<lparr>dbglines := dbglines st @ [dbgline (ltime st) msg]\<rparr> else st)"

subsection \<open>\<open>timer1sec\<close>\<close>

definition timer1sec :: "state \<Rightarrow> state" where
  "timer1sec st = st\<lparr>ltime := ltime st + 1\<rparr>"

subsection \<open>\<open>getContentType\<close> and \<open>onFileRequest\<close>\<close>

definition getContentType :: "string \<Rightarrow> string" where
  "getContentType filename =
     (if endsWith filename ''.html'' then ''text/html''
      else if endsWith filename ''.png'' then ''image/png''
      else if endsWith filename ''.gif'' then ''image/gif''
      else if endsWith filename ''.jpg'' then ''image/jpeg''
      else if endsWith filename ''.ico'' then ''image/x-icon''
      else if endsWith filename ''.css'' then ''text/css''
      else if endsWith filename ''.zip'' then ''application/x-zip''
      else if endsWith filename ''.gz'' then ''application/x-gzip''
      else if endsWith filename ''.pw'' then ''''
      else ''text/plain'')"

definition onFileRequest :: "nat \<Rightarrow> string \<Rightarrow> state \<Rightarrow> response \<times> state" where
  "onFileRequest heap fnam st =
     (let st1 = dbgprint heap (''onFileRequest received '' @ fnam) st;
          ct = getContentType fnam
      in if ct = '''' then (Send 404 ''text/plain'' ''File not found'', st1)
         else (SendFS fnam ct, st1))"

text \<open>
  \<open>request->send ( LittleFS, fnam, ct )\<close> is the web server library's: it answers with the
  file when the file system has \<open>fnam\<close> or its compressed form \<open>fnam.gz\<close>, and with an
  empty 404 otherwise. \<open>fs\<close> is the file system's \<open>exists\<close>.
\<close>

datatype outcome = NotFound | File string string | Text nat string

definition deliver :: "(string \<Rightarrow> bool) \<Rightarrow> response \<Rightarrow> outcome" where
  "deliver fs r =
     (case r of
        Send code ct body \<Rightarrow> (if code = 404 then NotFound else Text code body)
      | SendFS path ct \<Rightarrow> (if fs path \<or> fs (path @ ''.gz'') then File path ct else NotFound))"

subsection \<open>\<open>handle_getconf\<close>, \<open>handle_setconf\<close>, \<open>handle_overrule\<close>\<close>

text \<open>
  \<open>handle_setconf\<close> and \<open>handle_overrule\<close> read \<open>request->getParam ( 0 )\<close> and
  dereference the pointer unchecked. \<open>p\<close> is the value of the request's first parameter,
  \<open>None\<close> for a request that has no parameter; there the pointer is null, and the
  result \<open>None\<close> stands for the dereference of it, which C leaves undefined.
\<close>

function getconf_loop :: "nat \<Rightarrow> u8 list \<Rightarrow> string \<Rightarrow> string" where
  "getconf_loop i vals reply =
     (if i < 48
      then getconf_loop (Suc i) vals (reply @ dec_nat (unat (vals ! i)) @ '','')
      else reply)"
  by pat_completeness auto
termination
  by (relation "measure (\<lambda>(i, vals, reply). 48 - i)") auto

declare getconf_loop.simps [simp del]

definition handle_getconf :: "nat \<Rightarrow> state \<Rightarrow> response \<times> state" where
  "handle_getconf heap st =
     (let st1 = dbgprint heap ''HTTP getconf request'' st
      in (Send 200 ''text/plain'' (getconf_loop 0 (settings st1) ''''), st1))"

text \<open>The end of the loop body of \<open>handle_setconf\<close>: \<open>inx = value.indexOf ( "," )\<close>, and
  \<open>value = value.substring ( inx + 1 )\<close> when \<open>inx > 0\<close>.\<close>

definition next_value :: "string \<Rightarrow> string" where
  "next_value val =
     (let inx = indexOf val CHR '',''
      in if inx > 0 then substring val (nat (inx + 1)) else val)"

function setconf_loop :: "nat \<Rightarrow> string \<Rightarrow> u8 list \<Rightarrow> u8 list" where
  "setconf_loop i val vals =
     (if i < 48
      then (let vals1 = vals[i := word_of_int (toInt val)]
            in setconf_loop (Suc i) (next_value val) vals1)
      else vals)"
  by pat_completeness auto
termination
  by (relation "measure (\<lambda>(i, val, vals). 48 - i)") auto

declare setconf_loop.simps [simp del]

definition EEPROM_put :: "u8 list \<Rightarrow> u8 list \<Rightarrow> u8 list" where
  "EEPROM_put vals ee = vals @ drop (length vals) ee"

definition handle_setconf ::
  "nat \<Rightarrow> string option \<Rightarrow> state \<Rightarrow> (response \<times> state) option" where
  "handle_setconf heap p st =
     (let st1 = dbgprint heap ''HTTP setconf request'' st
      in case p of
           None \<Rightarrow> None
         | Some val \<Rightarrow>
             (let st2 = st1\<lparr>settings := setconf_loop 0 val (settings st1)\<rparr>;
                  st3 = st2\<lparr>overrule := False\<rparr>;
                  st4 = st3\<lparr>eeprom := EEPROM_put (settings st3) (eeprom st3)\<rparr>
              in Some (Send 200 ''text/plain'' ''SET command accepted'', st4)))"

definition handle_overrule ::
  "nat \<Rightarrow> string option \<Rightarrow> state \<Rightarrow> (response \<times> state) option" where
  "handle_overrule heap p st =
     (let st1 = dbgprint heap ''HTTP overrule request'' st
      in case p of
           None \<Rightarrow> None
         | Some val \<Rightarrow>
             (let st2 = st1\<lparr>overrule := True\<rparr>;
                  st3 = st2\<lparr>ovA := word_of_int (toInt val)\<rparr>;
                  inx = indexOf val CHR '','';
                  st4 = (if inx > 0
                         then st3\<lparr>ovB := word_of_int (toInt (substring val (nat (inx + 1))))\<rparr>
                         else st3)
              in Some (Send 200 ''text/plain'' ''Overrule command accepted'', st4)))"

subsection \<open>\<open>loop\<close>\<close>

text \<open>
  One pass of \<open>loop\<close> reads \<open>millis()\<close>, the result of \<open>timeClient.update()\<close> and, when it
  refreshes the local time, \<open>myTZ.toLocal ( timeClient.getEpochTime() )\<close>. The mDNS and
  OTA calls at its end do not touch the state modelled here.
\<close>

record tick_in =
  millis_now :: u32
  update_ok :: bool
  local_now :: u32

definition refresh_time :: "tick_in \<Rightarrow> state \<Rightarrow> state" where
  "refresh_time inp st =
     (let st1 = st\<lparr>time_ok := update_ok inp\<rparr>
      in if time_ok st1
         then (if millis_now inp > rfrltm st1
               then st1\<lparr>rfrltm := millis_now inp * 1000 * 600, ltime := local_now inp\<rparr>
               else st1)
         else st1)"

definition targets :: "state \<Rightarrow> u8 \<times> u8" where
  "targets st =
     (if overrule st then (ovA st, ovB st)
      else (let inx = hour (ltime st)
            in (settings st ! (inx * 2), settings st ! (inx * 2 + 1))))"

definition set_lampA :: "u8 \<Rightarrow> state \<Rightarrow> state \<times> pwm_write list" where
  "set_lampA newA st =
     (if newA \<noteq> intensityA st
      then (st\<lparr>intensityA := newA\<rparr>, [(LAMPA, newA)])
      else (st, []))"

definition set_lampB :: "u8 \<Rightarrow> state \<Rightarrow> state \<times> pwm_write list" where
  "set_lampB newB st =
     (if newB \<noteq> intensityB st
      then (st\<lparr>intensityB := newB\<rparr>, [(LAMPB, newB)])
      else (st, []))"

definition loop :: "tick_in \<Rightarrow> state \<Rightarrow> state \<times> pwm_write list" where
  "loop inp st =
     (let st1 = refresh_time inp st;
          (newA, newB) = targets st1;
          (st2, wA) = set_lampA newA st1;
          (st3, wB) = set_lampB newB st2
      in (st3, wA @ wB))"

subsection \<open>\<open>cb_logging\<close>\<close>

text \<open>
  The callback copies at most \<open>maxLen\<close> characters into the buffer it is given and
  returns how many it copied; the model returns the characters. \<open>None\<close> stands for a
  step C leaves undefined: reading through the null \<open>p_in\<close> or past the end of
  \<open>linebuf\<close>, indexing \<open>dbglines\<close> out of range, copying a line that does not fit
  into \<open>linebuf\<close>.
\<close>

definition LINEBUF_SIZE :: nat where
  "LINEBUF_SIZE = DEBUG_BUFFER_SIZE + 20"

datatype fill = Undefined | End_of_text | Ready nat state

text \<open>The test \<open>*p_in == '\\0'\<close> with the refill of \<open>linebuf\<close>; \<open>Ready p st\<close> has \<open>p_in\<close>
  at offset \<open>p\<close> of a character to copy.\<close>

definition cb_fill :: "state \<Rightarrow> fill" where
  "cb_fill st =
     (case p_in st of
        None \<Rightarrow> Undefined
      | Some p \<Rightarrow>
          if p > length (linebuf st) then Undefined
          else if p = length (linebuf st)
          then (if cb_i st = cb_nrl st then End_of_text
                else if cb_i st \<ge> length (dbglines st) then Undefined
                else (let s = cstr (dbglines st ! cb_i st)
                      in if length s + 2 > LINEBUF_SIZE then Undefined
                         else Ready 0 (st\<lparr>cb_i := cb_i st + 1,
                                          linebuf := s @ [CHR 0x0A],
                                          p_in := Some 0\<rparr>)))
          else Ready p st)"

fun cb_copy :: "nat \<Rightarrow> state \<Rightarrow> (string \<times> state) option" where
  "cb_copy 0 st = Some ([], st)"
| "cb_copy (Suc n) st =
     (case cb_fill st of
        Undefined \<Rightarrow> None
      | End_of_text \<Rightarrow> Some ([], st)
      | Ready p st1 \<Rightarrow>
          (case cb_copy n (st1\<lparr>p_in := Some (Suc p)\<rparr>) of
             None \<Rightarrow> None
           | Some (out, st2) \<Rightarrow> Some (linebuf st1 ! p # out, st2)))"

definition cb_reset :: "state \<Rightarrow> state" where
  "cb_reset st = st\<lparr>cb_i := 0, cb_nrl := length (dbglines st), linebuf := [], p_in := Some 0\<rparr>"

definition cb_logging :: "nat \<Rightarrow> nat \<Rightarrow> state \<Rightarrow> (string \<times> state) option" where
  "cb_logging maxLen index st = cb_copy maxLen (if index = 0 then cb_reset st else st)"

definition handle_logging :: "nat \<Rightarrow> state \<Rightarrow> state" where
  "handle_logging heap st = dbgprint heap ''HTTP logging request'' st"

text \<open>
  The chunked response of the web server library calls the callback once per chunk, with
  the size it has room for and, as \<open>index\<close>, the number of bytes the callback has
  returned so far. \<open>ms\<close> lists the sizes of the successive calls; nothing else runs
  between them.
\<close>

fun chunks :: "nat list \<Rightarrow> nat \<Rightarrow> state \<Rightarrow> (string list \<times> state) option" where
  "chunks [] index st = Some ([], st)"
| "chunks (m # ms) index st =
     (case cb_logging m index st of
        None \<Rightarrow> None
      | Some (c, st1) \<Rightarrow>
          (case chunks ms (index + length c) st1 of
             None \<Rightarrow> None
           | Some (cs, st2) \<Rightarrow> Some (c # cs, st2)))"

text \<open>The text of a log: every line followed by a newline.\<close>

definition log_text :: "string list \<Rightarrow> string" where
  "log_text ls = concat (map (\<lambda>l. l @ [CHR 0x0A]) ls)"

text \<open>What \<open>dbgprint\<close> guarantees of every line it stores: the time stamp and at most
  149 characters of message, none of them NUL.\<close>

definition log_ok :: "string list \<Rightarrow> bool" where
  "log_ok ls = list_all (\<lambda>l. length l \<le> 160 \<and> CHR 0x00 \<notin> set l) ls"

subsection \<open>Runs of the device\<close>

text \<open>
  The device alternates passes of \<open>loop\<close> with the timer interrupt and the HTTP
  handlers. A run is a list of such events; it collects the PWM writes. The set-schedule
  and override requests of a run carry their parameter: the device does not survive one
  without, so a run ends there.
\<close>

datatype event =
    Loop tick_in
  | Timer1sec
  | GetConf nat
  | SetConf nat string
  | Overrule nat string
  | FileRequest nat string
  | Logging nat
  | DbgPrint nat string

fun step :: "event \<Rightarrow> state \<Rightarrow> state \<times> pwm_write list" where
  "step (Loop inp) st = loop inp st"
| "step Timer1sec st = (timer1sec st, [])"
| "step (GetConf heap) st = (snd (handle_getconf heap st), [])"
| "step (SetConf heap val) st =
     (case handle_setconf heap (Some val) st of
        None \<Rightarrow> (st, [])
      | Some (r, st1) \<Rightarrow> (st1, []))"
| "step (Overrule heap val) st =
     (case handle_overrule heap (Some val) st of
        None \<Rightarrow> (st, [])
      | Some (r, st1) \<Rightarrow> (st1, []))"
| "step (FileRequest heap fnam) st = (snd (onFileRequest heap fnam st), [])"
| "step (Logging heap) st = (handle_logging heap st, [])"
| "step (DbgPrint heap msg) st = (dbgprint heap msg st, [])"

fun run :: "event list \<Rightarrow> state \<Rightarrow> state \<times> pwm_write list" where
  "run [] st = (st, [])"
| "run (e # es) st =
     (let (st1, w1) = step e st; (st2, w2) = run es st1 in (st2, w1 @ w2))"

text \<open>The targets the passes of \<open>loop\<close> in a run compute, in order.\<close>

fun tick_targets :: "event list \<Rightarrow> state \<Rightarrow> (u8 \<times> u8) list" where
  "tick_targets [] st = []"
| "tick_targets (Loop inp # es) st =
     targets (refresh_time inp st) # tick_targets es (fst (loop inp st))"
| "tick_targets (e # es) st = tick_targets es (fst (step e st))"

fun is_tick :: "event \<Rightarrow> bool" where
  "is_tick (Loop inp) = True"
| "is_tick e = False"

fun sets_override :: "event \<Rightarrow> bool" where
  "sets_override (SetConf heap val) = True"
| "sets_override (Overrule heap val) = True"
| "sets_override e = False"

text \<open>The two channels.\<close>

fun chan_index :: "lamp \<Rightarrow> nat" where
  "chan_index LAMPA = 0"
| "chan_index LAMPB = 1"

fun target_of :: "lamp \<Rightarrow> u8 \<times> u8 \<Rightarrow> u8" where
  "target_of LAMPA t = fst t"
| "target_of LAMPB t = snd t"

fun intensity :: "lamp \<Rightarrow> state \<Rightarrow> u8" where
  "intensity LAMPA st = intensityA st"
| "intensity LAMPB st = intensityB st"

definition writes_to :: "lamp \<Rightarrow> pwm_write list \<Rightarrow> pwm_write list" where
  "writes_to c ws = filter (\<lambda>w. fst w = c) ws"

subsection \<open>The request body of a schedule\<close>

text \<open>
  Modelled from the spec: the body of a set-schedule request, which the browser page
  (not among the sources) builds: ASCII, comma-separated decimal integers.
\<close>

definition dec_int :: "int \<Rightarrow> string" where
  "dec_int v = (if v < 0 then CHR ''-'' # dec_nat (nat (- v)) else dec_nat (nat v))"

fun comma_separated :: "string list \<Rightarrow> string" where
  "comma_separated [] = []"
| "comma_separated [x] = x"
| "comma_separated (x # y # ys) = x @ CHR '','' # comma_separated (y # ys)"

definition request_of :: "int list \<Rightarrow> string" where
  "request_of vs = comma_separated (map dec_int vs)"

text \<open>The reply of \<open>handle_getconf\<close> for a table: every value followed by a comma.\<close>

definition reply_of :: "u8 list \<Rightarrow> string" where
  "reply_of vals = concat (map (\<lambda>v. dec_nat (unat v) @ '','') vals)"

subsection \<open>Notions the statements use\<close>

text \<open>The range of the \<open>long\<close> that \<open>toInt\<close> returns.\<close>

definition long_range :: "int \<Rightarrow> bool" where
  "long_range v = (LONG_MIN \<le> v \<and> v \<le> LONG_MAX)"

text \<open>The extensions \<open>getContentType\<close> lists with a content type of their own.\<close>

definition known_extension :: "string \<Rightarrow> bool" where
  "known_extension filename =
     list_ex (endsWith filename)
       [''.html'', ''.png'', ''.gif'', ''.jpg'', ''.ico'', ''.css'', ''.zip'', ''.gz'']"

text \<open>What \<open>cb_logging\<close> has still to deliver: the rest of \<open>linebuf\<close> from \<open>p_in\<close> on, then
  the lines \<open>i\<close> up to \<open>nrl\<close>. And what its statics satisfy between two calls of one
  response.\<close>

definition pending :: "state \<Rightarrow> string" where
  "pending st =
     drop (case p_in st of None \<Rightarrow> 0 | Some p \<Rightarrow> p) (linebuf st) @
     log_text (take (cb_nrl st - cb_i st) (drop (cb_i st) (dbglines st)))"

definition cb_inv :: "state \<Rightarrow> bool" where
  "cb_inv st =
     ((case p_in st of None \<Rightarrow> False | Some p \<Rightarrow> p \<le> length (linebuf st))
      \<and> cb_i st \<le> cb_nrl st \<and> cb_nrl st \<le> length (dbglines st)
      \<and> log_ok (dbglines st))"

text \<open>The chunks a response is to consist of: the text of the log cut into pieces of the
  sizes asked for, in order.\<close>

fun expected_chunks :: "nat list \<Rightarrow> string \<Rightarrow> string list" where
  "expected_chunks [] t = []"
| "expected_chunks (m # ms) t = take m t # expected_chunks ms (drop m t)"

subsection \<open>Sample states and inputs\<close>

text \<open>
  A settings block with lamp A at 80 and lamp B at 40 from 20:00 to 21:00 and both off
  otherwise; a pass of \<open>loop\<close> in which the time client delivers 20:00:00 local time,
  and one in which it delivers nothing; the state an override request \<open>5,5\<close> leaves
  that evening.
\<close>

definition zero_block :: "u8 list" where
  "zero_block = replicate 512 0"

definition day_values :: "nat list" where
  "day_values = replicate 40 0 @ [80, 40] @ replicate 6 0"

definition day_block :: "u8 list" where
  "day_block = map of_nat day_values @ replicate 464 0"

definition first_slot_block :: "u8 list" where
  "first_slot_block = 80 # replicate 511 0"

definition sync_evening :: tick_in where
  "sync_evening = \<lparr>millis_now = 1000, update_ok = True, local_now = 72000\<rparr>"

definition no_sync :: tick_in where
  "no_sync = \<lparr>millis_now = 1000, update_ok = False, local_now = 0\<rparr>"

definition quiet_run :: "event list" where
  "quiet_run = [Loop sync_evening, Timer1sec, Loop no_sync]"

definition overridden :: state where
  "overridden = (fst (loop sync_evening (power_on day_block)))\<lparr>overrule := True, ovA := 5, ovB := 5\<rparr>"


definition wide_values :: "int list" where
  "wide_values = [300, - 1, 256, 100] @ replicate 44 7"

definition two_lines :: state where
  "two_lines = dbgprint 9000 ''two'' (dbgprint 9000 ''one'' (power_on (replicate 512 0)))"

text \<open>Two file systems: one holding only \<open>/notes.txt\<close>, one holding only \<open>/home.pw\<close>.\<close>

definition only_notes :: "string \<Rightarrow> bool" where
  "only_notes path = (path = ''/notes.txt'')"

definition only_secret :: "string \<Rightarrow> bool" where
  "only_secret path = (path = ''/home.pw'')"

section \<open>The diagnostic log is append-only\<close>

lemma dbglines_dbgprint:
  "dbglines (dbgprint heap msg st) =
     (if heap > 8000 then dbglines st @ [dbgline (ltime st) msg] else dbglines st)"
  by (simp add: dbgprint_def)

lemma dbglines_loop [simp]: "dbglines (fst (loop inp st)) = dbglines st"
  by (simp add: loop_def refresh_time_def set_lampA_def set_lampB_def Let_def split: prod.splits if_splits)

lemma prefix_step: "prefix (dbglines st) (dbglines (fst (step e st)))"
proof (cases e)
  case (SetConf heap val)
  then show ?thesis by (simp add: handle_setconf_def Let_def dbglines_dbgprint)
next
  case (Overrule heap val)
  then show ?thesis by (simp add: handle_overrule_def Let_def dbglines_dbgprint)
next
  case (GetConf heap)
  then show ?thesis by (simp add: handle_getconf_def Let_def dbglines_dbgprint)
next
  case (FileRequest heap fnam)
  then show ?thesis by (simp add: onFileRequest_def Let_def dbglines_dbgprint)
qed (simp_all add: timer1sec_def handle_logging_def dbglines_dbgprint)

lemma prefix_run: "prefix (dbglines st) (dbglines (fst (run evs st)))"
proof (induction evs arbitrary: st)
  case Nil
  show ?case by simp
next
  case (Cons e es)
  have "prefix (dbglines st) (dbglines (fst (step e st)))" by (rule prefix_step)
  also have "prefix \<dots> (dbglines (fst (run es (fst (step e st)))))" by (rule Cons.IH)
  finally show ?case by (simp add: split_beta)
qed

text \<open>
  Claim C9. \<open>dbgprint\<close> appends the new line at the end of \<open>dbglines\<close> when the free heap
  is above 8000 bytes and stores nothing otherwise; either way the lines stored before
  stay a prefix of the log, and they do so over any run of the device: no line is ever
  dropped or moved.
\<close>

theorem dbgprint_append_only:
  "(heap > 8000 \<longrightarrow> dbglines (dbgprint heap msg st) = dbglines st @ [dbgline (ltime st) msg])
   \<and> (heap \<le> 8000 \<longrightarrow> dbglines (dbgprint heap msg st) = dbglines st)
   \<and> prefix (dbglines st) (dbglines (dbgprint heap msg st))
   \<and> prefix (dbglines st) (dbglines (fst (run evs st)))"
  by (simp add: dbglines_dbgprint prefix_run)

lemma two_lines_log: "dbglines two_lines = [''00:00:00 - one'', ''00:00:00 - two'']"
  by (simp add: two_lines_def dbgprint_def power_on_def dbgline_def tbuf_def two_digits_def hour_def minute_def second_def
      dec_nat.simps digit_char_def cstr_def DEBUG_BUFFER_SIZE_def)

theorem dbgprint_append_only_witness:
  "dbglines (dbgprint 8001 ''three'' two_lines) = [''00:00:00 - one'', ''00:00:00 - two'', ''00:00:00 - three'']
   \<and> dbglines (dbgprint 8000 ''three'' two_lines) = [''00:00:00 - one'', ''00:00:00 - two'']
   \<and> prefix (dbglines two_lines) (dbglines (fst (run [Timer1sec, DbgPrint 9000 ''x'', SetConf 9000 ''1,2''] two_lines)))"
  using dbgprint_append_only [of 8001 "''three''" two_lines "[Timer1sec, DbgPrint 9000 ''x'', SetConf 9000 ''1,2'']"]
        dbgprint_append_only [of 8000 "''three''" two_lines "[]"]
  by (simp add: two_lines_log dbgline_def tbuf_def two_digits_def hour_def minute_def second_def
      dec_nat.simps digit_char_def cstr_def DEBUG_BUFFER_SIZE_def two_lines_def power_on_def dbgprint_def)

section \<open>Parsing the request of \<open>handle_setconf\<close>\<close>

subsection \<open>Decimal numbers\<close>

lemma digit_char_code: "d < 10 \<Longrightarrow> (of_char (digit_char d) :: nat) = 48 + d"
proof -
  assume "d < 10"
  then have "d = 0 \<or> d = 1 \<or> d = 2 \<or> d = 3 \<or> d = 4 \<or> d = 5 \<or> d = 6 \<or> d = 7 \<or> d = 8 \<or> d = 9"
    by arith
  then show ?thesis by (elim disjE) (simp_all add: digit_char_def)
qed

lemma isdigit_digit_char: "d < 10 \<Longrightarrow> isdigit_c (digit_char d)"
  by (simp add: isdigit_c_def digit_char_code)

lemma digit_val_digit_char: "d < 10 \<Longrightarrow> digit_val (digit_char d) = int d"
  by (simp add: digit_val_def digit_char_code)

lemma dec_nat_digits: "\<forall>c \<in> set (dec_nat n). isdigit_c c"
proof (induction n rule: dec_nat.induct)
  case (1 n)
  show ?case
  proof (cases "n < 10")
    case True
    then show ?thesis by (simp add: dec_nat.simps [of n] isdigit_digit_char)
  next
    case False
    with 1 show ?thesis by (simp add: dec_nat.simps [of n] isdigit_digit_char)
  qed
qed

lemma dec_nat_nonempty: "dec_nat n \<noteq> []"
  by (simp add: dec_nat.simps [of n])

lemma digits_acc_append:
  "\<forall>c \<in> set ds. isdigit_c c \<Longrightarrow>
   digits_acc a (ds @ rest) = digits_acc (foldl (\<lambda>a c. a * 10 + digit_val c) a ds) rest"
  by (induction ds arbitrary: a) simp_all

lemma foldl_dec_nat:
  "foldl (\<lambda>a c. a * 10 + digit_val c) a (dec_nat n) = a * 10 ^ length (dec_nat n) + int n"
proof (induction n arbitrary: a rule: dec_nat.induct)
  case (1 n)
  show ?case
  proof (cases "n < 10")
    case True
    then show ?thesis by (simp add: dec_nat.simps [of n] digit_val_digit_char)
  next
    case False
    have "foldl (\<lambda>a c. a * 10 + digit_val c) a (dec_nat n)
          = (a * 10 ^ length (dec_nat (n div 10)) + int (n div 10)) * 10 + int (n mod 10)"
      using False 1 by (simp add: dec_nat.simps [of n] digit_val_digit_char)
    also have "\<dots> = a * 10 ^ length (dec_nat n) + (int (n div 10) * 10 + int (n mod 10))"
      using False by (simp add: dec_nat.simps [of n] algebra_simps)
    also have "int (n div 10) * 10 + int (n mod 10) = int n"
      by (simp add: zdiv_int zmod_int)
    finally show ?thesis .
  qed
qed

lemma digits_acc_stop: "rest = [] \<or> \<not> isdigit_c (hd rest) \<Longrightarrow> digits_acc a rest = a"
  by (cases rest) auto

lemma digits_acc_dec_nat:
  "rest = [] \<or> \<not> isdigit_c (hd rest) \<Longrightarrow> digits_acc 0 (dec_nat n @ rest) = int n"
  by (simp add: digits_acc_append dec_nat_digits foldl_dec_nat digits_acc_stop)

lemma isdigit_not_space: "isdigit_c c \<Longrightarrow> \<not> isspace_c c"
  by (auto simp: isdigit_c_def isspace_c_def)

lemma isdigit_not_sign: "isdigit_c c \<Longrightarrow> c \<noteq> CHR ''-'' \<and> c \<noteq> CHR ''+'' \<and> c \<noteq> CHR '',''"
  by (auto simp: isdigit_c_def)

lemma hd_dec_nat_digit: "isdigit_c (hd (dec_nat n))"
  using dec_nat_digits [of n] dec_nat_nonempty [of n] by (cases "dec_nat n") auto

lemma toInt_dec_nat:
  assumes "rest = [] \<or> \<not> isdigit_c (hd rest)" and "int n \<le> LONG_MAX"
  shows "toInt (dec_nat n @ rest) = int n"
proof -
  obtain c cs where cs: "dec_nat n = c # cs"
    using dec_nat_nonempty [of n] by (cases "dec_nat n") auto
  have d: "isdigit_c c" using hd_dec_nat_digit [of n] cs by simp
  have "digits_acc 0 (c # cs @ rest) = int n"
    using digits_acc_dec_nat [OF assms(1), of n] cs by simp
  then show ?thesis
    using cs d assms(2) isdigit_not_space [OF d] isdigit_not_sign [OF d]
    by (simp add: toInt_def atol_def)
qed

lemma toInt_dec_int:
  assumes "rest = [] \<or> \<not> isdigit_c (hd rest)" and "LONG_MIN \<le> v" and "v \<le> LONG_MAX"
  shows "toInt (dec_int v @ rest) = v"
proof (cases "v < 0")
  case False
  then show ?thesis using toInt_dec_nat [OF assms(1), of "nat v"] assms(3) by (simp add: dec_int_def)
next
  case True
  have "\<not> isspace_c CHR ''-''" by (simp add: isspace_c_def)
  then have "toInt (dec_int v @ rest) = max LONG_MIN (- digits_acc 0 (dec_nat (nat (- v)) @ rest))"
    using True by (simp add: dec_int_def toInt_def atol_def)
  also have "\<dots> = max LONG_MIN v"
    using True by (simp add: digits_acc_dec_nat [OF assms(1)])
  finally show ?thesis using assms(2) by simp
qed

lemma comma_not_digit: "\<not> isdigit_c CHR '',''"
  by (simp add: isdigit_c_def)

lemma dec_int_no_comma: "CHR '','' \<notin> set (dec_int v)"
  using dec_nat_digits isdigit_not_sign by (auto simp: dec_int_def)

lemma dec_int_nonempty: "dec_int v \<noteq> []"
  by (simp add: dec_int_def dec_nat_nonempty)

subsection \<open>Stepping through the fields\<close>

lemma indexOf_from_skip:
  "c \<notin> set xs \<Longrightarrow> indexOf_from k (xs @ c # rest) c = int (k + length xs)"
  by (induction xs arbitrary: k) auto

lemma indexOf_from_none: "c \<notin> set xs \<Longrightarrow> indexOf_from k xs c = - 1"
  by (induction xs arbitrary: k) auto

lemma next_value_field:
  "CHR '','' \<notin> set x \<Longrightarrow> x \<noteq> [] \<Longrightarrow> next_value (x @ CHR '','' # rest) = rest"
  by (simp add: next_value_def indexOf_def indexOf_from_skip substring_def nat_add_distrib)

lemma next_value_last: "CHR '','' \<notin> set x \<Longrightarrow> next_value x = x"
  by (simp add: next_value_def indexOf_def indexOf_from_none)

text \<open>The loop stores, in slot \<open>k\<close>, what \<open>toInt\<close> reads after \<open>k\<close> steps of \<open>next_value\<close>.\<close>

lemma setconf_loop_iterates:
  "length vals = 48 \<Longrightarrow> i \<le> 48 \<Longrightarrow>
   setconf_loop i val vals =
     take i vals @ map (\<lambda>k. word_of_int (toInt ((next_value ^^ k) val))) [0..<48 - i]"
proof (induction i val vals rule: setconf_loop.induct)
  case (1 i val vals)
  show ?case
  proof (cases "i < 48")
    case False
    have "setconf_loop i val vals = vals"
      using False by (simp add: setconf_loop.simps [of i])
    moreover from False 1(3) have "i = 48" by simp
    ultimately show ?thesis using 1(2) by simp
  next
    case True
    let ?w = "word_of_int (toInt val) :: u8"
    let ?f = "\<lambda>v k. word_of_int (toInt ((next_value ^^ k) v)) :: u8"
    have ih: "setconf_loop (Suc i) (next_value val) (vals[i := ?w])
              = take (Suc i) (vals[i := ?w]) @ map (?f (next_value val)) [0..<48 - Suc i]"
      using 1(1) [OF True refl] True 1(2) by simp
    have t: "take (Suc i) (vals[i := ?w]) = take i vals @ [?w]"
      using True 1(2) by (simp add: take_Suc_conv_app_nth)
    have "48 - i = Suc (48 - Suc i)" using True by simp
    then have "[0..<48 - i] = 0 # map Suc [0..<48 - Suc i]"
      by (simp only: upt_conv_Cons [OF zero_less_Suc] map_Suc_upt)
    then have m: "map (?f val) [0..<48 - i] = ?w # map (?f (next_value val)) [0..<48 - Suc i]"
      by (simp add: funpow_swap1 comp_def del: upt_Suc)
    show ?thesis
      using True ih t m by (simp add: setconf_loop.simps [of i] Let_def)
  qed
qed

lemma length_setconf_loop: "length (setconf_loop i val vals) = length vals"
  by (induction i val vals rule: setconf_loop.induct) (simp add: setconf_loop.simps Let_def)

lemma comma_separated_Cons:
  "comma_separated (x # xs) = x @ (if xs = [] then [] else CHR '','' # comma_separated xs)"
  by (cases xs) simp_all

lemma next_value_iterates:
  "\<forall>x \<in> set xs. CHR '','' \<notin> set x \<and> x \<noteq> [] \<Longrightarrow>
   (next_value ^^ k) (comma_separated xs) = comma_separated (drop (min k (length xs - 1)) xs)"
proof (induction k arbitrary: xs)
  case 0
  show ?case by simp
next
  case (Suc k)
  show ?case
  proof (cases xs)
    case Nil
    have e: "next_value [] = []" by (simp add: next_value_last)
    then have "(next_value ^^ n) [] = []" for n by (induction n) simp_all
    then show ?thesis using Nil e by simp
  next
    case (Cons x ys)
    show ?thesis
    proof (cases ys)
      case Nil
      have e: "next_value x = x" using Suc.prems Cons by (simp add: next_value_last)
      then have "(next_value ^^ n) x = x" for n by (induction n) simp_all
      then show ?thesis using \<open>xs = x # ys\<close> Nil e by simp
    next
      case (Cons y zs)
      have "next_value (comma_separated xs) = comma_separated ys"
        using Suc.prems \<open>xs = x # ys\<close> Cons by (simp add: next_value_field)
      moreover have "(next_value ^^ k) (comma_separated ys)
                     = comma_separated (drop (min k (length ys - 1)) ys)"
        using Suc.prems \<open>xs = x # ys\<close> by (intro Suc.IH) simp
      ultimately show ?thesis
        using \<open>xs = x # ys\<close> Cons by (simp add: funpow_swap1)
    qed
  qed
qed

lemma toInt_request_of:
  assumes "vs \<noteq> []" and "long_range (hd vs)"
  shows "toInt (request_of vs) = hd vs"
proof -
  obtain v ws where vs: "vs = v # ws" using assms(1) by (cases vs) auto
  have "request_of vs = dec_int v @ (if ws = [] then [] else CHR '','' # request_of ws)"
    using vs by (simp add: request_of_def comma_separated_Cons)
  moreover have "toInt (dec_int v @ (if ws = [] then [] else CHR '','' # request_of ws)) = v"
    using assms(2) vs by (intro toInt_dec_int) (simp_all add: comma_not_digit long_range_def)
  ultimately show ?thesis using vs by simp
qed

lemma toInt_iterate_request:
  assumes "vs \<noteq> []" and "\<forall>v \<in> set vs. long_range v"
  shows "toInt ((next_value ^^ k) (request_of vs)) = vs ! min k (length vs - 1)"
proof -
  define j where "j = min k (length vs - 1)"
  have j: "j < length vs" using assms(1) by (cases vs) (auto simp: j_def)
  have "(next_value ^^ k) (comma_separated (map dec_int vs))
        = comma_separated (drop (min k (length (map dec_int vs) - 1)) (map dec_int vs))"
    by (rule next_value_iterates) (simp add: dec_int_no_comma dec_int_nonempty)
  then have "(next_value ^^ k) (request_of vs) = request_of (drop j vs)"
    by (simp add: request_of_def drop_map j_def)
  moreover have "drop j vs \<noteq> []" using j by simp
  moreover have "hd (drop j vs) = vs ! j" using j by (simp add: hd_drop_conv_nth)
  moreover have "long_range (vs ! j)" using assms(2) j by simp
  ultimately show ?thesis by (simp add: toInt_request_of j_def)
qed

lemma setconf_loop_request:
  assumes "length vals = 48" and "vs \<noteq> []" and "\<forall>v \<in> set vs. long_range v"
  shows "setconf_loop 0 (request_of vs) vals
         = map (\<lambda>k. word_of_int (vs ! min k (length vs - 1))) [0..<48]"
  using assms by (simp add: setconf_loop_iterates toInt_iterate_request del: upt_Suc)

lemma setconf_loop_request_48:
  assumes "length vals = 48" and "length vs = 48" and "\<forall>v \<in> set vs. long_range v"
  shows "setconf_loop 0 (request_of vs) vals = map word_of_int vs"
proof -
  have "vs \<noteq> []" using assms(2) by auto
  then have "setconf_loop 0 (request_of vs) vals
        = map (\<lambda>k. word_of_int (vs ! min k (length vs - 1))) [0..<48]"
    using assms by (intro setconf_loop_request)
  also have "\<dots> = map word_of_int vs"
    using assms(2) by (intro nth_equalityI) (simp_all del: upt_Suc)
  finally show ?thesis .
qed


subsection \<open>The handlers\<close>

lemma getconf_loop_reply:
  "length vals = 48 \<Longrightarrow> i \<le> 48 \<Longrightarrow>
   getconf_loop i vals reply = reply @ reply_of (drop i vals)"
proof (induction i vals reply rule: getconf_loop.induct)
  case (1 i vals reply)
  show ?case
  proof (cases "i < 48")
    case False
    have "getconf_loop i vals reply = reply"
      using False by (simp add: getconf_loop.simps [of i])
    then show ?thesis using False 1(2,3) by (simp add: reply_of_def)
  next
    case True
    have "drop i vals = vals ! i # drop (Suc i) vals"
      using True 1(2) by (simp add: Cons_nth_drop_Suc)
    then have "reply_of (drop i vals) = dec_nat (unat (vals ! i)) @ '','' @ reply_of (drop (Suc i) vals)"
      by (simp add: reply_of_def)
    then show ?thesis
      using True 1(1) [OF True] 1(2) by (simp add: getconf_loop.simps [of i])
  qed
qed

lemma settings_dbgprint [simp]: "settings (dbgprint heap msg st) = settings st"
  by (simp add: dbgprint_def)

lemma handle_getconf_reply:
  "length (settings st) = 48 \<Longrightarrow>
   fst (handle_getconf heap st) = Send 200 ''text/plain'' (reply_of (settings st))"
  by (simp add: handle_getconf_def Let_def getconf_loop_reply)

text \<open>A request without a parameter: the handlers dereference the null pointer.\<close>

lemma handle_setconf_no_param: "handle_setconf heap None st = None"
  by (simp add: handle_setconf_def)

text \<open>A request with a parameter is always answered.\<close>

lemma handle_setconf_returns: "\<exists>r st'. handle_setconf heap (Some val) st = Some (r, st')"
  by (simp add: handle_setconf_def Let_def)

lemma handle_setconf_effects:
  assumes "handle_setconf heap (Some val) st = Some (r, st')"
  shows "r = Send 200 ''text/plain'' ''SET command accepted''
         \<and> settings st' = setconf_loop 0 val (settings st)
         \<and> \<not> overrule st'
         \<and> eeprom st' = EEPROM_put (settings st') (eeprom st)
         \<and> length (settings st') = length (settings st)
         \<and> ltime st' = ltime st
         \<and> intensityA st' = intensityA st \<and> intensityB st' = intensityB st
         \<and> dbglines st' = dbglines (dbgprint heap ''HTTP setconf request'' st)"
  using assms by (auto simp: handle_setconf_def Let_def dbgprint_def length_setconf_loop)


lemma day_values_ok: "length day_values = 48 \<and> (\<forall>v \<in> set day_values. v \<le> 100)"
  by (simp add: day_values_def)

lemma wide_values_ok: "length wide_values = 48 \<and> (\<forall>v \<in> set wide_values. long_range v)"
  by (simp add: wide_values_def long_range_def LONG_MIN_def LONG_MAX_def)

lemma settings_power_on: "length ee \<ge> 48 \<Longrightarrow> length (settings (power_on ee)) = 48"
  by (simp add: power_on_def)

section \<open>Set, then get\<close>

text \<open>
  Claim C2. For every sequence \<open>S\<close> of 48 integers between 0 and 100, \<open>handle_setconf\<close> on
  the request whose parameter lists \<open>S\<close> answers with the acceptance and leaves exactly
  \<open>S\<close> in \<open>settings.values\<close>, slot for slot, and the \<open>handle_getconf\<close> that follows reads it
  back: its reply lists the values of \<open>S\<close> in order, each followed by a comma.
\<close>

theorem setconf_getconf_roundtrip:
  assumes "length (settings st) = 48" and "length S = 48" and "\<forall>v \<in> set S. v \<le> 100"
  shows "\<exists>st'. handle_setconf heap (Some (request_of (map int S))) st
                 = Some (Send 200 ''text/plain'' ''SET command accepted'', st')
           \<and> map unat (settings st') = S
           \<and> fst (handle_getconf heap' st')
               = Send 200 ''text/plain'' (concat (map (\<lambda>v. dec_nat v @ '','') S))"
proof -
  obtain r st' where h: "handle_setconf heap (Some (request_of (map int S))) st = Some (r, st')"
    using handle_setconf_returns by blast
  note e = handle_setconf_effects [OF h]
  have r: "\<forall>v \<in> set (map int S). long_range v"
    using assms(3) by (auto simp: long_range_def LONG_MIN_def LONG_MAX_def)
  have s: "settings st' = map word_of_int (map int S)"
    using assms(1,2) r e by (simp add: setconf_loop_request_48)
  have u: "unat (word_of_int (int v) :: u8) = v" if "v \<in> set S" for v
  proof -
    have "v \<le> 100" using that assms(3) by simp
    then have "v mod 256 = v" by simp
    then show ?thesis by (simp add: unat_of_nat)
  qed
  have m: "map unat (settings st') = S"
    using u by (simp add: s comp_def map_idI)
  have "length (settings st') = 48" using s assms(2) by simp
  then have "fst (handle_getconf heap' st') = Send 200 ''text/plain'' (reply_of (settings st'))"
    by (rule handle_getconf_reply)
  moreover have "reply_of (settings st') = concat (map (\<lambda>v. dec_nat v @ '','') (map unat (settings st')))"
    by (simp add: reply_of_def comp_def)
  ultimately have g: "fst (handle_getconf heap' st')
      = Send 200 ''text/plain'' (concat (map (\<lambda>v. dec_nat v @ '','') S))"
    by (simp only: m)
  have "r = Send 200 ''text/plain'' ''SET command accepted''" using e by simp
  then show ?thesis using h m g by blast
qed

theorem setconf_getconf_roundtrip_witness:
  "map_option (map unat \<circ> settings \<circ> snd)
     (handle_setconf 9000 (Some (request_of (map int day_values))) (power_on zero_block))
     = Some (replicate 40 0 @ [80, 40] @ replicate 6 0)
   \<and> map_option (fst \<circ> handle_getconf 9000 \<circ> snd)
       (handle_setconf 9000 (Some (request_of (map int day_values))) (power_on zero_block))
     = Some (Send 200 ''text/plain'' (concat (map (\<lambda>v. dec_nat v @ '','') day_values)))"
proof -
  have "length (settings (power_on zero_block)) = 48"
    by (simp add: settings_power_on zero_block_def)
  from setconf_getconf_roundtrip [OF this, of day_values 9000 9000] day_values_ok
  obtain st' where
    "handle_setconf 9000 (Some (request_of (map int day_values))) (power_on zero_block)
       = Some (Send 200 ''text/plain'' ''SET command accepted'', st')"
    "map unat (settings st') = day_values"
    "fst (handle_getconf 9000 st')
       = Send 200 ''text/plain'' (concat (map (\<lambda>v. dec_nat v @ '','') day_values))"
    by blast
  then show ?thesis by (simp add: day_values_def)
qed

text \<open>
  Claim C10. Whatever the parameter of the request, the request is answered and the value
  stored in slot \<open>i\<close> is the integer \<open>toInt\<close> parsed for that slot, reduced modulo 256; so
  for a request listing 48 integers of any size a \<open>long\<close> holds, reading the table back
  yields each of them modulo 256.
\<close>

theorem setconf_stores_mod_256:
  assumes "length (settings st) = 48"
  shows "(\<exists>st'. handle_setconf heap (Some val) st
                  = Some (Send 200 ''text/plain'' ''SET command accepted'', st')
            \<and> (\<forall>i < 48. uint (settings st' ! i) = toInt ((next_value ^^ i) val) mod 256))
         \<and> (length vs = 48 \<and> (\<forall>v \<in> set vs. long_range v) \<longrightarrow>
              (\<exists>st'. handle_setconf heap (Some (request_of vs)) st
                       = Some (Send 200 ''text/plain'' ''SET command accepted'', st')
                 \<and> map uint (settings st') = map (\<lambda>v. v mod 256) vs))"
proof (intro conjI impI)
  obtain r st' where h: "handle_setconf heap (Some val) st = Some (r, st')"
    using handle_setconf_returns by blast
  note e = handle_setconf_effects [OF h]
  have "uint (settings st' ! i) = toInt ((next_value ^^ i) val) mod 256" if "i < 48" for i
  proof -
    have "settings st' ! i = (word_of_int (toInt ((next_value ^^ i) val)) :: u8)"
      using assms that e by (simp add: setconf_loop_iterates del: upt_Suc)
    then show ?thesis by (simp add: uint_word_of_int)
  qed
  then show "\<exists>st'. handle_setconf heap (Some val) st
                  = Some (Send 200 ''text/plain'' ''SET command accepted'', st')
            \<and> (\<forall>i < 48. uint (settings st' ! i) = toInt ((next_value ^^ i) val) mod 256)"
    using h e by auto
next
  assume a: "length vs = 48 \<and> (\<forall>v \<in> set vs. long_range v)"
  obtain r st' where h: "handle_setconf heap (Some (request_of vs)) st = Some (r, st')"
    using handle_setconf_returns by blast
  note e = handle_setconf_effects [OF h]
  have "settings st' = map word_of_int vs"
    using assms a e by (simp add: setconf_loop_request_48)
  then have "map uint (settings st') = map (\<lambda>v. v mod 256) vs"
    by (simp add: comp_def uint_word_of_int)
  then show "\<exists>st'. handle_setconf heap (Some (request_of vs)) st
                       = Some (Send 200 ''text/plain'' ''SET command accepted'', st')
                 \<and> map uint (settings st') = map (\<lambda>v. v mod 256) vs"
    using h e by auto
qed

theorem setconf_stores_mod_256_witness:
  "map_option (map uint \<circ> settings \<circ> snd)
     (handle_setconf 9000 (Some (request_of wide_values)) (power_on zero_block))
     = Some ([44, 255, 0, 100] @ replicate 44 7)
   \<and> map_option ((\<lambda>t. uint (t ! 0)) \<circ> settings \<circ> snd)
       (handle_setconf 9000 (Some ''300,-1'') (power_on zero_block))
     = Some 44"
proof -
  have l: "length (settings (power_on zero_block)) = 48"
    by (simp add: settings_power_on zero_block_def)
  have t: "toInt ''300,-1'' = 300"
    by (simp add: toInt_def atol_def isspace_c_def isdigit_c_def digit_val_def LONG_MAX_def)
  from setconf_stores_mod_256 [OF l, of 9000 "''300,-1''" wide_values] wide_values_ok
  obtain st1 st2 where
    "handle_setconf 9000 (Some ''300,-1'') (power_on zero_block)
       = Some (Send 200 ''text/plain'' ''SET command accepted'', st1)"
    "\<forall>i < 48. uint (settings st1 ! i) = toInt ((next_value ^^ i) ''300,-1'') mod 256"
    "handle_setconf 9000 (Some (request_of wide_values)) (power_on zero_block)
       = Some (Send 200 ''text/plain'' ''SET command accepted'', st2)"
    "map uint (settings st2) = map (\<lambda>v. v mod 256) wide_values"
    by blast
  moreover from this(2) have "uint (settings st1 ! 0) = 44" using t by simp
  ultimately show ?thesis by (simp add: wide_values_def)
qed

section \<open>One pass of \<open>loop\<close>\<close>

lemma refresh_time_keeps [simp]:
  "settings (refresh_time inp st) = settings st"
  "overrule (refresh_time inp st) = overrule st"
  "ovA (refresh_time inp st) = ovA st"
  "ovB (refresh_time inp st) = ovB st"
  "intensityA (refresh_time inp st) = intensityA st"
  "intensityB (refresh_time inp st) = intensityB st"
  "dbglines (refresh_time inp st) = dbglines st"
  by (simp_all add: refresh_time_def Let_def)

lemma refresh_time_no_update:
  "\<not> update_ok inp \<Longrightarrow> refresh_time inp st = st\<lparr>time_ok := False\<rparr>"
  by (simp add: refresh_time_def Let_def)

lemma targets_time_ok [simp]: "targets (st\<lparr>time_ok := b\<rparr>) = targets st"
  by (simp add: targets_def)

lemma loop_state:
  "fst (loop inp st) = (refresh_time inp st)
     \<lparr>intensityA := fst (targets (refresh_time inp st)),
      intensityB := snd (targets (refresh_time inp st))\<rparr>"
  by (cases "targets (refresh_time inp st)")
     (simp add: loop_def set_lampA_def set_lampB_def Let_def)

lemma loop_writes:
  "snd (loop inp st) =
     (if fst (targets (refresh_time inp st)) \<noteq> intensityA st
      then [(LAMPA, fst (targets (refresh_time inp st)))] else []) @
     (if snd (targets (refresh_time inp st)) \<noteq> intensityB st
      then [(LAMPB, snd (targets (refresh_time inp st)))] else [])"
  by (cases "targets (refresh_time inp st)")
     (simp add: loop_def set_lampA_def set_lampB_def Let_def)

lemma loop_intensity:
  "intensity c (fst (loop inp st)) = target_of c (targets (refresh_time inp st))"
  by (cases c) (simp_all add: loop_state)

lemma loop_writes_to:
  "writes_to c (snd (loop inp st)) =
     (if target_of c (targets (refresh_time inp st)) \<noteq> intensity c st
      then [(c, target_of c (targets (refresh_time inp st)))] else [])"
  by (cases c) (simp_all add: loop_writes writes_to_def)

lemma hour_le_23: "hour t \<le> 23"
  by (simp add: hour_def)

lemma dbgprint_keeps [simp]:
  "overrule (dbgprint heap msg st) = overrule st"
  "ovA (dbgprint heap msg st) = ovA st"
  "ovB (dbgprint heap msg st) = ovB st"
  "intensityA (dbgprint heap msg st) = intensityA st"
  "intensityB (dbgprint heap msg st) = intensityB st"
  "ltime (dbgprint heap msg st) = ltime st"
  "eeprom (dbgprint heap msg st) = eeprom st"
  by (simp_all add: dbgprint_def)

text \<open>
  Claim C3. When the override is inactive and the local time in effect in a pass of
  \<open>loop\<close> has hour \<open>h\<close>, then \<open>h\<close> is between 0 and 23 and, for either channel, the target
  the pass computes is the entry \<open>h * 2 + c\<close> of the settings table (\<open>c\<close> is 0 for lamp A
  and 1 for lamp B), an index inside the table, and the pass leaves the channel at that
  intensity.
\<close>

theorem tick_target_is_schedule_slot:
  assumes "\<not> overrule st" and "hour (ltime (refresh_time inp st)) = h"
  shows "h \<le> 23
         \<and> h * 2 + chan_index c < 48
         \<and> target_of c (targets (refresh_time inp st)) = settings st ! (h * 2 + chan_index c)
         \<and> intensity c (fst (loop inp st)) = settings st ! (h * 2 + chan_index c)"
proof -
  have h: "h \<le> 23" using assms(2) hour_le_23 [of "ltime (refresh_time inp st)"] by simp
  have "target_of c (targets (refresh_time inp st)) = settings st ! (h * 2 + chan_index c)"
    using assms by (cases c) (simp_all add: targets_def Let_def)
  moreover have "h * 2 + chan_index c < 48"
    using h by (cases c) simp_all
  ultimately show ?thesis using h by (simp add: loop_intensity)
qed

lemma day_block_settings:
  "settings (power_on day_block) = replicate 40 0 @ [80, 40] @ replicate 6 0"
  by (simp add: power_on_def day_block_def day_values_def)

lemma refresh_sync_evening:
  "ltime (refresh_time sync_evening (power_on day_block)) = 72000"
  by (simp add: refresh_time_def sync_evening_def power_on_def Let_def)

lemma hour_evening: "hour 72000 = 20"
  by (simp add: hour_def)

theorem tick_target_is_schedule_slot_witness:
  "target_of LAMPA (targets (refresh_time sync_evening (power_on day_block))) = 80
   \<and> target_of LAMPB (targets (refresh_time sync_evening (power_on day_block))) = 40
   \<and> intensity LAMPA (fst (loop sync_evening (power_on day_block))) = 80
   \<and> intensity LAMPB (fst (loop sync_evening (power_on day_block))) = 40"
proof -
  have h: "hour (ltime (refresh_time sync_evening (power_on day_block))) = 20"
    by (simp add: refresh_sync_evening hour_evening)
  have o: "\<not> overrule (power_on day_block)" by (simp add: power_on_def)
  have n: "(replicate 40 0 @ 80 # 40 # replicate 6 0 :: u8 list) ! 40 = 80"
          "(replicate 40 0 @ 80 # 40 # replicate 6 0 :: u8 list) ! 41 = 40"
    by (simp_all add: nth_append)
  show ?thesis
    using tick_target_is_schedule_slot [OF o h, of LAMPA]
          tick_target_is_schedule_slot [OF o h, of LAMPB]
    by (simp add: day_block_settings n)
qed

text \<open>
  Claim C6, as the code has it. A pass of \<open>loop\<close> in which the time client delivers
  nothing is not skipped: it leaves \<open>ltime\<close> as it is and still decides and applies, with
  the hour of that \<open>ltime\<close> (zero at power-on, advanced by the timer). Its targets are
  those of the state it started in, each lamp is written when its target differs from
  its intensity, and both intensities end at the targets.
\<close>

theorem tick_without_sync_still_applies:
  assumes "\<not> update_ok inp"
  shows "ltime (fst (loop inp st)) = ltime st
         \<and> targets (refresh_time inp st) = targets st
         \<and> snd (loop inp st) =
             (if fst (targets st) \<noteq> intensityA st then [(LAMPA, fst (targets st))] else []) @
             (if snd (targets st) \<noteq> intensityB st then [(LAMPB, snd (targets st))] else [])
         \<and> intensityA (fst (loop inp st)) = fst (targets st)
         \<and> intensityB (fst (loop inp st)) = snd (targets st)"
proof -
  have r: "refresh_time inp st = st\<lparr>time_ok := False\<rparr>"
    using assms by (rule refresh_time_no_update)
  have t: "targets (refresh_time inp st) = targets st"
    by (simp add: r)
  have "snd (loop inp st) =
          (if fst (targets st) \<noteq> intensityA st then [(LAMPA, fst (targets st))] else []) @
          (if snd (targets st) \<noteq> intensityB st then [(LAMPB, snd (targets st))] else [])"
    unfolding loop_writes t ..
  moreover have "ltime (fst (loop inp st)) = ltime st"
    unfolding loop_state by (simp add: r)
  moreover have "intensityA (fst (loop inp st)) = fst (targets st)"
    unfolding loop_state t by simp
  moreover have "intensityB (fst (loop inp st)) = snd (targets st)"
    unfolding loop_state t by simp
  ultimately show ?thesis using t by simp
qed

lemma first_slot_state:
  "settings (power_on first_slot_block) = 80 # replicate 47 0
   \<and> ltime (power_on first_slot_block) = 0
   \<and> \<not> overrule (power_on first_slot_block)
   \<and> \<not> time_ok (power_on first_slot_block)
   \<and> intensityA (power_on first_slot_block) = 0
   \<and> intensityB (power_on first_slot_block) = 0"
  by (simp add: power_on_def first_slot_block_def)

lemma first_slot_targets: "targets (power_on first_slot_block) = (80, 0)"
  by (simp add: targets_def first_slot_state hour_def Let_def)

theorem tick_without_sync_still_applies_witness:
  "snd (loop no_sync (power_on first_slot_block)) = [(LAMPA, 80)]
   \<and> intensityA (fst (loop no_sync (power_on first_slot_block))) = 80
   \<and> ltime (fst (loop no_sync (power_on first_slot_block))) = 0"
  using tick_without_sync_still_applies [of no_sync "power_on first_slot_block"]
  by (simp add: no_sync_def first_slot_targets first_slot_state)

text \<open>
  Claim C6 as stated fails. Straight after power-on, with no time ever received and a
  settings block whose first slot is 80, a pass of \<open>loop\<close> without time does not hold the
  output: it writes 80 to lamp A.
\<close>

theorem tick_without_sync_counterexample:
  "\<not> time_ok (power_on first_slot_block)
   \<and> \<not> update_ok no_sync
   \<and> \<not> time_ok (fst (loop no_sync (power_on first_slot_block)))
   \<and> snd (loop no_sync (power_on first_slot_block)) = [(LAMPA, 80)]
   \<and> intensityA (fst (loop no_sync (power_on first_slot_block)))
       \<noteq> intensityA (power_on first_slot_block)"
proof -
  have r: "refresh_time no_sync (power_on first_slot_block) = (power_on first_slot_block)\<lparr>time_ok := False\<rparr>"
    by (rule refresh_time_no_update) (simp add: no_sync_def)
  show ?thesis
    unfolding loop_writes loop_state r
    by (simp add: first_slot_targets first_slot_state no_sync_def)
qed

section \<open>Override and runs\<close>

lemma step_keeps_intensity:
  "\<not> is_tick e \<Longrightarrow> intensity c (fst (step e st)) = intensity c st \<and> snd (step e st) = []"
  by (cases e; cases c)
     (simp_all add: timer1sec_def handle_getconf_def handle_setconf_def handle_overrule_def
        onFileRequest_def handle_logging_def Let_def)

lemma step_keeps_override:
  "\<not> sets_override e \<Longrightarrow>
   overrule (fst (step e st)) = overrule st \<and> ovA (fst (step e st)) = ovA st
   \<and> ovB (fst (step e st)) = ovB st"
  by (cases e)
     (simp_all add: timer1sec_def handle_getconf_def onFileRequest_def handle_logging_def
        loop_state Let_def)

lemma targets_override: "overrule st \<Longrightarrow> targets st = (ovA st, ovB st)"
  by (simp add: targets_def)

lemma tick_targets_step:
  "\<not> is_tick e \<Longrightarrow> tick_targets (e # es) st = tick_targets es (fst (step e st))"
  by (cases e) simp_all

lemma override_run:
  "overrule st \<Longrightarrow> \<forall>e \<in> set evs. \<not> sets_override e \<Longrightarrow>
   \<forall>t \<in> set (tick_targets evs st). t = (ovA st, ovB st)"
proof (induction evs arbitrary: st)
  case Nil
  show ?case by simp
next
  case (Cons e es)
  have k: "overrule (fst (step e st))" "ovA (fst (step e st)) = ovA st"
          "ovB (fst (step e st)) = ovB st"
    using Cons.prems step_keeps_override [of e st] by simp_all
  have ih: "\<forall>t \<in> set (tick_targets es (fst (step e st))). t = (ovA st, ovB st)"
    using Cons.IH [of "fst (step e st)"] k Cons.prems(2) by simp
  show ?case
  proof (cases e)
    case (Loop inp)
    then show ?thesis using ih Cons.prems(1) by (simp add: targets_override)
  qed (use ih in simp_all)
qed

lemma evening_targets: "targets (refresh_time sync_evening (power_on day_block)) = (80, 40)"
  by (simp add: targets_def Let_def refresh_sync_evening hour_evening day_block_settings nth_append)
     (simp add: power_on_def)

lemma evening_state:
  "settings (fst (loop sync_evening (power_on day_block))) = replicate 40 0 @ [80, 40] @ replicate 6 0
   \<and> ltime (fst (loop sync_evening (power_on day_block))) = 72000
   \<and> intensityA (fst (loop sync_evening (power_on day_block))) = 80
   \<and> intensityB (fst (loop sync_evening (power_on day_block))) = 40
   \<and> eeprom (fst (loop sync_evening (power_on day_block))) = day_block
   \<and> \<not> overrule (fst (loop sync_evening (power_on day_block)))"
  by (simp add: loop_state day_block_settings refresh_sync_evening evening_targets)
     (simp add: refresh_time_def sync_evening_def power_on_def Let_def)

lemma overridden_facts:
  "overrule overridden \<and> ovA overridden = 5 \<and> ovB overridden = 5
   \<and> settings overridden = replicate 40 0 @ [80, 40] @ replicate 6 0
   \<and> eeprom overridden = day_block \<and> ltime overridden = 72000
   \<and> intensityA overridden = 80 \<and> intensityB overridden = 40"
  by (simp add: overridden_def evening_state)

lemma hour_evening_later: "hour 72001 = 20"
  by (simp add: hour_def)

lemma quiet_second_targets:
  "targets (refresh_time no_sync (timer1sec (fst (loop sync_evening (power_on day_block))))) = (80, 40)"
  by (simp add: refresh_time_no_update no_sync_def targets_def timer1sec_def evening_state
      hour_evening_later nth_append Let_def)

lemma quiet_targets: "tick_targets quiet_run (power_on day_block) = [(80, 40), (80, 40)]"
  by (simp add: quiet_run_def evening_targets quiet_second_targets)

lemma override_targets: "tick_targets quiet_run overridden = [(5, 5), (5, 5)]"
  by (simp add: quiet_run_def targets_override overridden_facts loop_state timer1sec_def)

lemma overridden_by_request:
  "handle_overrule 8000 (Some ''5,5'') (fst (loop sync_evening (power_on day_block)))
     = Some (Send 200 ''text/plain'' ''Overrule command accepted'', overridden)"
  by (simp add: overridden_def handle_overrule_def Let_def dbgprint_def
      toInt_def atol_def isspace_c_def isdigit_c_def digit_val_def LONG_MAX_def
      indexOf_def substring_def)

lemma ltime_no_sync [simp]: "ltime (refresh_time no_sync st) = ltime st"
  by (simp add: refresh_time_no_update no_sync_def)

lemma day_request_state:
  assumes "handle_setconf 9000 (Some (request_of (map int day_values))) overridden = Some (r, st')"
  shows "settings st' = replicate 40 0 @ [80, 40] @ replicate 6 0 \<and> ltime st' = 72000"
proof -
  note e = handle_setconf_effects [OF assms]
  have "\<forall>v \<in> set (map int day_values). long_range v"
    by (simp add: day_values_def long_range_def LONG_MIN_def LONG_MAX_def)
  moreover have "length (map int day_values) = 48" by (simp add: day_values_def)
  moreover have "length (settings overridden) = 48" by (simp add: overridden_facts)
  ultimately have "settings st' = map word_of_int (map int day_values)"
    using e by (simp add: setconf_loop_request_48)
  then show ?thesis using e by (simp add: day_values_def overridden_facts)
qed

lemma handle_overrule_no_param: "handle_overrule heap None st = None"
  by (simp add: handle_overrule_def)

lemma handle_overrule_pair:
  assumes "long_range a" and "long_range b"
  shows "\<exists>st'. handle_overrule heap (Some (request_of [a, b])) st
                 = Some (Send 200 ''text/plain'' ''Overrule command accepted'', st')
           \<and> overrule st' \<and> ovA st' = word_of_int a \<and> ovB st' = word_of_int b"
proof -
  have r: "request_of [a, b] = dec_int a @ CHR '','' # dec_int b"
    by (simp add: request_of_def)
  have ta: "toInt (dec_int a @ CHR '','' # dec_int b) = a"
    using assms(1) by (intro toInt_dec_int) (simp_all add: comma_not_digit long_range_def)
  have tb: "toInt (dec_int b) = b"
    using assms(2) toInt_dec_int [of "[]" b] by (simp add: long_range_def)
  have i: "indexOf (dec_int a @ CHR '','' # dec_int b) CHR '','' = int (length (dec_int a))"
    by (simp add: indexOf_def indexOf_from_skip dec_int_no_comma)
  have p: "dec_int a \<noteq> []" by (rule dec_int_nonempty)
  have s: "substring (dec_int a @ CHR '','' # dec_int b) (Suc (length (dec_int a))) = dec_int b"
    using dec_int_nonempty [of b] by (simp add: substring_def)
  show ?thesis
    unfolding r by (simp add: handle_overrule_def Let_def i p ta tb s nat_add_distrib)
qed

text \<open>
  Claim C4. While \<open>overrule\<close> is set with the pair \<open>(ovA, ovB)\<close>, a pass of \<open>loop\<close> has that
  pair as its targets whatever the settings table holds, and leaves both lamps at it; this
  stays so for every pass of a run in which no set-schedule or override request arrives.
  \<open>handle_setconf\<close> clears \<open>overrule\<close>, and the targets of the pass after it are the two
  entries of the new table for the hour in effect. The override is what
  \<open>handle_overrule\<close> leaves: on the request \<open>a,b\<close> it sets \<open>overrule\<close> and stores \<open>a\<close> and
  \<open>b\<close>, as bytes, in \<open>ovA\<close> and \<open>ovB\<close>.
\<close>

theorem override_supersedes_until_setconf:
  "(overrule st \<longrightarrow>
      (\<forall>sched. targets (refresh_time inp (st\<lparr>settings := sched\<rparr>)) = (ovA st, ovB st))
      \<and> intensityA (fst (loop inp st)) = ovA st \<and> intensityB (fst (loop inp st)) = ovB st
      \<and> ((\<forall>e \<in> set evs. \<not> sets_override e) \<longrightarrow>
           (\<forall>t \<in> set (tick_targets evs st). t = (ovA st, ovB st))))
   \<and> (\<exists>st'. handle_setconf heap (Some val) st
                 = Some (Send 200 ''text/plain'' ''SET command accepted'', st')
          \<and> \<not> overrule st'
          \<and> targets (refresh_time inp st')
              = (settings st' ! (hour (ltime (refresh_time inp st')) * 2),
                 settings st' ! (hour (ltime (refresh_time inp st')) * 2 + 1)))
   \<and> (long_range a \<and> long_range b \<longrightarrow>
        (\<exists>st'. handle_overrule heap (Some (request_of [a, b])) st
                  = Some (Send 200 ''text/plain'' ''Overrule command accepted'', st')
            \<and> overrule st' \<and> ovA st' = word_of_int a \<and> ovB st' = word_of_int b))"
proof -
  have a: "targets (refresh_time inp (st\<lparr>settings := sched\<rparr>)) = (ovA st, ovB st)"
    if "overrule st" for sched
    using that by (simp add: targets_override)
  have b: "intensityA (fst (loop inp st)) = ovA st \<and> intensityB (fst (loop inp st)) = ovB st"
    if "overrule st"
    using that by (simp add: loop_state targets_override)
  obtain r st' where h: "handle_setconf heap (Some val) st = Some (r, st')"
    using handle_setconf_returns by blast
  note e = handle_setconf_effects [OF h]
  have c: "\<not> overrule st'" using e by simp
  then have d: "targets (refresh_time inp st')
     = (settings st' ! (hour (ltime (refresh_time inp st')) * 2),
        settings st' ! (hour (ltime (refresh_time inp st')) * 2 + 1))"
    by (simp add: targets_def Let_def)
  have "r = Send 200 ''text/plain'' ''SET command accepted''" using e by simp
  then have f: "\<exists>st'. handle_setconf heap (Some val) st
                 = Some (Send 200 ''text/plain'' ''SET command accepted'', st')
          \<and> \<not> overrule st'
          \<and> targets (refresh_time inp st')
              = (settings st' ! (hour (ltime (refresh_time inp st')) * 2),
                 settings st' ! (hour (ltime (refresh_time inp st')) * 2 + 1))"
    using h c d by blast
  show ?thesis
    using a b f override_run [of st evs] handle_overrule_pair [of a b heap st] by blast
qed

theorem override_supersedes_until_setconf_witness:
  "overrule overridden
   \<and> targets (refresh_time no_sync overridden) = (5, 5)
   \<and> intensityA (fst (loop no_sync overridden)) = 5
   \<and> intensityB (fst (loop no_sync overridden)) = 5
   \<and> tick_targets quiet_run overridden = [(5, 5), (5, 5)]
   \<and> map_option (ovA \<circ> snd) (handle_overrule 9000 (Some (request_of [5, 300])) overridden)
       = Some 5
   \<and> map_option (ovB \<circ> snd) (handle_overrule 9000 (Some (request_of [5, 300])) overridden)
       = Some 44
   \<and> map_option (overrule \<circ> snd)
       (handle_setconf 9000 (Some (request_of (map int day_values))) overridden) = Some False
   \<and> map_option (targets \<circ> refresh_time no_sync \<circ> snd)
       (handle_setconf 9000 (Some (request_of (map int day_values))) overridden)
       = Some (80, 40)"
proof -
  note t = override_supersedes_until_setconf
            [of overridden no_sync quiet_run 9000 "request_of (map int day_values)" 5 300]
  have s: "overridden\<lparr>settings := settings overridden\<rparr> = overridden" by simp
  have a: "targets (refresh_time no_sync overridden) = (5, 5)
           \<and> intensityA (fst (loop no_sync overridden)) = 5
           \<and> intensityB (fst (loop no_sync overridden)) = 5"
    using t s by (metis overridden_facts)
  from t obtain st1 where
      h1: "handle_setconf 9000 (Some (request_of (map int day_values))) overridden
           = Some (Send 200 ''text/plain'' ''SET command accepted'', st1)"
      and o1: "\<not> overrule st1"
      and t1: "targets (refresh_time no_sync st1)
           = (settings st1 ! (hour (ltime (refresh_time no_sync st1)) * 2),
              settings st1 ! (hour (ltime (refresh_time no_sync st1)) * 2 + 1))"
    by blast
  have "targets (refresh_time no_sync st1) = (80, 40)"
    unfolding t1 using day_request_state [OF h1] by (simp add: hour_evening nth_append)
  then have b: "map_option (overrule \<circ> snd)
       (handle_setconf 9000 (Some (request_of (map int day_values))) overridden) = Some False
     \<and> map_option (targets \<circ> refresh_time no_sync \<circ> snd)
       (handle_setconf 9000 (Some (request_of (map int day_values))) overridden)
       = Some (80, 40)"
    using h1 o1 by simp
  have "long_range 5 \<and> long_range 300"
    by (simp add: long_range_def LONG_MIN_def LONG_MAX_def)
  with t obtain st2 where
      "handle_overrule 9000 (Some (request_of [5, 300])) overridden
           = Some (Send 200 ''text/plain'' ''Overrule command accepted'', st2)"
      "ovA st2 = word_of_int 5" "ovB st2 = word_of_int 300"
    by blast
  then have c: "map_option (ovA \<circ> snd)
        (handle_overrule 9000 (Some (request_of [5, 300])) overridden) = Some 5
     \<and> map_option (ovB \<circ> snd)
        (handle_overrule 9000 (Some (request_of [5, 300])) overridden) = Some 44"
    by simp
  show ?thesis using a b c by (simp add: overridden_facts override_targets)
qed

lemma run_quiet:
  "\<forall>t \<in> set (tick_targets evs st). target_of c t = v \<Longrightarrow> intensity c st = v \<Longrightarrow>
   writes_to c (snd (run evs st)) = []"
proof (induction evs arbitrary: st)
  case Nil
  show ?case by (simp add: writes_to_def)
next
  case (Cons e es)
  show ?case
  proof (cases "is_tick e")
    case True
    then obtain inp where e: "e = Loop inp" by (cases e) simp_all
    have t: "target_of c (targets (refresh_time inp st)) = v"
      using Cons.prems(1) e by simp
    have "writes_to c (snd (run es (fst (loop inp st)))) = []"
      using Cons.prems(1) e t by (intro Cons.IH) (simp_all add: loop_intensity)
    moreover have "writes_to c (snd (loop inp st)) = []"
      using t Cons.prems(2) by (simp add: loop_writes_to)
    ultimately show ?thesis
      using e by (simp add: split_beta writes_to_def)
  next
    case False
    have "writes_to c (snd (run es (fst (step e st)))) = []"
      using Cons.prems False
      by (intro Cons.IH) (simp_all add: tick_targets_step step_keeps_intensity)
    then show ?thesis
      using False step_keeps_intensity [of e c st] by (simp add: split_beta writes_to_def)
  qed
qed

lemma run_one_write:
  "\<forall>t \<in> set (tick_targets evs st). target_of c t = v \<Longrightarrow> tick_targets evs st \<noteq> [] \<Longrightarrow>
   writes_to c (snd (run evs st)) = (if v \<noteq> intensity c st then [(c, v)] else [])"
proof (induction evs arbitrary: st)
  case Nil
  then show ?case by simp
next
  case (Cons e es)
  show ?case
  proof (cases "is_tick e")
    case True
    then obtain inp where e: "e = Loop inp" by (cases e) simp_all
    have t: "target_of c (targets (refresh_time inp st)) = v"
      using Cons.prems(1) e by simp
    have "writes_to c (snd (run es (fst (loop inp st)))) = []"
      using Cons.prems(1) e t by (intro run_quiet [where v = v]) (simp_all add: loop_intensity)
    moreover have "writes_to c (snd (loop inp st)) = (if v \<noteq> intensity c st then [(c, v)] else [])"
      using t by (simp add: loop_writes_to)
    ultimately show ?thesis
      using e by (simp add: split_beta writes_to_def)
  next
    case False
    have "writes_to c (snd (run es (fst (step e st))))
          = (if v \<noteq> intensity c (fst (step e st)) then [(c, v)] else [])"
      using Cons.prems False by (intro Cons.IH) (simp_all add: tick_targets_step)
    then show ?thesis
      using False step_keeps_intensity [of e c st] by (simp add: split_beta writes_to_def)
  qed
qed

text \<open>
  Claim C5. In every pass of \<open>loop\<close> and for each channel on its own, a write to the lamp
  is issued if and only if the target differs from the intensity last written, the value
  written is the target, and the pass leaves the intensity at the target. Over a run
  with at least one pass in which every pass has the same target for the channel, the
  channel gets one write, by the first pass, when that target differs from the intensity
  at the start of the run, and none when it is equal.
\<close>

theorem write_iff_target_changed:
  "((c, v) \<in> set (snd (loop inp st)) \<longleftrightarrow>
      v = target_of c (targets (refresh_time inp st)) \<and> v \<noteq> intensity c st)
   \<and> writes_to c (snd (loop inp st)) =
       (if target_of c (targets (refresh_time inp st)) \<noteq> intensity c st
        then [(c, target_of c (targets (refresh_time inp st)))] else [])
   \<and> intensity c (fst (loop inp st)) = target_of c (targets (refresh_time inp st))
   \<and> ((\<forall>t \<in> set (tick_targets evs st). target_of c t = v) \<and> tick_targets evs st \<noteq> [] \<longrightarrow>
        writes_to c (snd (run evs st)) = (if v \<noteq> intensity c st then [(c, v)] else []))"
proof -
  have "(c, v) \<in> set (snd (loop inp st)) \<longleftrightarrow>
          v = target_of c (targets (refresh_time inp st)) \<and> v \<noteq> intensity c st"
    by (cases c) (auto simp: loop_writes)
  then show ?thesis
    using run_one_write [of evs st c v] by (simp add: loop_writes_to loop_intensity)
qed

theorem write_iff_target_changed_witness:
  "writes_to LAMPA (snd (run quiet_run (power_on day_block))) = [(LAMPA, 80)]
   \<and> writes_to LAMPB (snd (run quiet_run (power_on day_block))) = [(LAMPB, 40)]
   \<and> snd (loop sync_evening (power_on day_block)) = [(LAMPA, 80), (LAMPB, 40)]
   \<and> snd (loop no_sync (fst (loop sync_evening (power_on day_block)))) = []"
proof -
  have i: "intensity LAMPA (power_on day_block) = 0" "intensity LAMPB (power_on day_block) = 0"
    by (simp_all add: power_on_def)
  have a: "writes_to LAMPA (snd (run quiet_run (power_on day_block))) = [(LAMPA, 80)]"
    using write_iff_target_changed [of LAMPA 80 sync_evening "power_on day_block" quiet_run] i
    by (simp add: quiet_targets)
  have b: "writes_to LAMPB (snd (run quiet_run (power_on day_block))) = [(LAMPB, 40)]"
    using write_iff_target_changed [of LAMPB 40 sync_evening "power_on day_block" quiet_run] i
    by (simp add: quiet_targets)
  have c: "snd (loop sync_evening (power_on day_block)) = [(LAMPA, 80), (LAMPB, 40)]"
    by (simp add: loop_writes evening_targets) (simp add: power_on_def)
  have "targets (refresh_time no_sync (fst (loop sync_evening (power_on day_block)))) = (80, 40)"
    by (simp add: refresh_time_no_update no_sync_def targets_def evening_state hour_evening
        nth_append Let_def)
  then have d: "snd (loop no_sync (fst (loop sync_evening (power_on day_block)))) = []"
    by (simp add: loop_writes evening_state)
  show ?thesis using a b c d by simp
qed

section \<open>A request with fewer than 48 values\<close>





section \<open>Files\<close>

lemma endsWith_last: "endsWith s suf \<Longrightarrow> suf \<noteq> [] \<Longrightarrow> last s = last suf"
proof -
  assume a: "endsWith s suf" and b: "suf \<noteq> []"
  then have "drop (length s - length suf) s = suf" by (simp add: endsWith_def)
  moreover have "length s - length suf < length s"
    using a b by (cases suf) (auto simp: endsWith_def)
  ultimately show ?thesis by (metis last_drop)
qed

lemma pw_content_type: "endsWith filename ''.pw'' \<Longrightarrow> getContentType filename = ''''"
proof -
  assume a: "endsWith filename ''.pw''"
  then have l: "last filename = CHR ''w''" using endsWith_last [OF a] by simp
  have "\<not> endsWith filename suf" if "suf \<noteq> []" "last suf \<noteq> CHR ''w''" for suf
    using that l endsWith_last [of filename suf] by auto
  then have "\<not> endsWith filename ''.html''" "\<not> endsWith filename ''.png''"
    "\<not> endsWith filename ''.gif''" "\<not> endsWith filename ''.jpg''"
    "\<not> endsWith filename ''.ico''" "\<not> endsWith filename ''.css''"
    "\<not> endsWith filename ''.zip''" "\<not> endsWith filename ''.gz''"
    by simp_all
  then show ?thesis using a by (simp add: getContentType_def)
qed

lemma content_type_empty_iff: "getContentType filename = '''' \<longleftrightarrow> endsWith filename ''.pw''"
  using pw_content_type [of filename] by (auto simp: getContentType_def split: if_splits)

lemma unknown_content_type:
  "\<not> known_extension filename \<Longrightarrow> \<not> endsWith filename ''.pw'' \<Longrightarrow>
   getContentType filename = ''text/plain''"
  by (simp add: known_extension_def getContentType_def)

text \<open>
  Claim C8, as the code has it. A request for a path that ends in \<open>.pw\<close> is answered
  with 404 whether or not the file exists. Any other path is answered with the file, under
  the content type \<open>getContentType\<close> gives it, when the file system has the path or its
  \<open>.gz\<close> form, and with 404 when it has neither. A path with none of the listed
  extensions has the content type \<open>text/plain\<close>: it is served, not refused.
\<close>

theorem file_request_outcome:
  "(endsWith fnam ''.pw'' \<longrightarrow>
      fst (onFileRequest heap fnam st) = Send 404 ''text/plain'' ''File not found''
      \<and> deliver fs (fst (onFileRequest heap fnam st)) = NotFound)
   \<and> (\<not> endsWith fnam ''.pw'' \<longrightarrow>
        deliver fs (fst (onFileRequest heap fnam st)) =
          (if fs fnam \<or> fs (fnam @ ''.gz'') then File fnam (getContentType fnam) else NotFound))
   \<and> (\<not> known_extension fnam \<and> \<not> endsWith fnam ''.pw'' \<longrightarrow>
        getContentType fnam = ''text/plain'')"
  by (simp add: onFileRequest_def Let_def deliver_def content_type_empty_iff unknown_content_type)

theorem file_request_outcome_witness:
  "deliver only_secret (fst (onFileRequest 9000 ''/home.pw'' (power_on []))) = NotFound
   \<and> deliver only_notes (fst (onFileRequest 9000 ''/notes.txt'' (power_on [])))
       = File ''/notes.txt'' ''text/plain''
   \<and> deliver only_notes (fst (onFileRequest 9000 ''/index.html'' (power_on []))) = NotFound"
  using file_request_outcome [of "''/home.pw''" 9000 "power_on []" only_secret]
        file_request_outcome [of "''/notes.txt''" 9000 "power_on []" only_notes]
        file_request_outcome [of "''/index.html''" 9000 "power_on []" only_notes]
  by (simp add: endsWith_def known_extension_def only_notes_def only_secret_def getContentType_def
      deliver_def)

text \<open>
  Claim C8 as stated fails. \<open>/notes.txt\<close> has an extension \<open>getContentType\<close> does not list,
  and where the file exists the request is answered with the file as \<open>text/plain\<close>.
\<close>

theorem unknown_extension_counterexample:
  "\<not> known_extension ''/notes.txt''
   \<and> only_notes ''/notes.txt''
   \<and> deliver only_notes (fst (onFileRequest 9000 ''/notes.txt'' (power_on [])))
       = File ''/notes.txt'' ''text/plain''"
  by (simp add: onFileRequest_def Let_def deliver_def getContentType_def endsWith_def
      known_extension_def only_notes_def)

section \<open>Streaming the log\<close>

subsection \<open>Every stored line fits \<open>linebuf\<close>\<close>

lemma length_dec_nat_digit: "n < 10 \<Longrightarrow> length (dec_nat n) = 1"
  by (simp add: dec_nat.simps [of n])

lemma length_two_digits: "n < 100 \<Longrightarrow> length (two_digits n) = 2"
proof (cases "n < 10")
  case True
  then show ?thesis by (simp add: two_digits_def length_dec_nat_digit)
next
  case False
  assume "n < 100"
  then have "n div 10 < 10" by simp
  then show ?thesis
    using False by (simp add: two_digits_def dec_nat.simps [of n] length_dec_nat_digit)
qed

lemma isdigit_not_NUL: "isdigit_c c \<Longrightarrow> c \<noteq> CHR 0x00"
  by (auto simp: isdigit_c_def)

lemma two_digits_no_NUL: "CHR 0x00 \<notin> set (two_digits n)"
  using dec_nat_digits [of n] isdigit_not_NUL by (auto simp: two_digits_def)

lemma tbuf_ok: "length (tbuf t) = 11 \<and> CHR 0x00 \<notin> set (tbuf t)"
proof -
  have "hour t < 100" "minute t < 100" "second t < 100"
    by (simp_all add: hour_def minute_def second_def) 
  then show ?thesis
    by (simp add: tbuf_def length_two_digits two_digits_no_NUL)
qed

lemma cstr_no_NUL: "CHR 0x00 \<notin> set (cstr msg)"
  by (auto simp: cstr_def dest: set_takeWhileD)

lemma cstr_id: "CHR 0x00 \<notin> set s \<Longrightarrow> cstr s = s"
  by (auto simp: cstr_def takeWhile_eq_all_conv)

lemma dbgline_ok: "length (dbgline t msg) \<le> 160 \<and> CHR 0x00 \<notin> set (dbgline t msg)"
proof -
  have "CHR 0x00 \<notin> set (take 149 (cstr msg))"
    using cstr_no_NUL [of msg] by (auto dest: in_set_takeD)
  then show ?thesis
    using tbuf_ok [of t] by (simp add: dbgline_def DEBUG_BUFFER_SIZE_def)
qed

lemma log_ok_dbgprint: "log_ok (dbglines st) \<Longrightarrow> log_ok (dbglines (dbgprint heap msg st))"
  using dbgline_ok [of "ltime st" msg] by (simp add: dbglines_dbgprint log_ok_def)

lemma log_ok_step: "log_ok (dbglines st) \<Longrightarrow> log_ok (dbglines (fst (step e st)))"
proof (cases e)
  case (SetConf heap val)
  assume "log_ok (dbglines st)"
  then show ?thesis
    using SetConf log_ok_dbgprint [of st heap "''HTTP setconf request''"]
    by (simp add: handle_setconf_def Let_def)
next
  case (Overrule heap val)
  assume "log_ok (dbglines st)"
  then show ?thesis
    using Overrule log_ok_dbgprint [of st heap "''HTTP overrule request''"]
    by (simp add: handle_overrule_def Let_def)
next
  case (GetConf heap)
  assume "log_ok (dbglines st)"
  then show ?thesis using GetConf by (simp add: handle_getconf_def Let_def log_ok_dbgprint)
next
  case (FileRequest heap fnam)
  assume "log_ok (dbglines st)"
  then show ?thesis using FileRequest by (simp add: onFileRequest_def Let_def log_ok_dbgprint)
qed (simp_all add: timer1sec_def handle_logging_def log_ok_dbgprint)

lemma log_ok_run: "log_ok (dbglines st) \<Longrightarrow> log_ok (dbglines (fst (run evs st)))"
proof (induction evs arbitrary: st)
  case Nil
  then show ?case by simp
next
  case (Cons e es)
  have "log_ok (dbglines (fst (run es (fst (step e st)))))"
    using Cons.prems by (intro Cons.IH log_ok_step)
  then show ?case by (simp add: split_beta)
qed

lemma log_ok_reachable: "log_ok (dbglines (fst (run evs (power_on ee))))"
  by (rule log_ok_run) (simp add: power_on_def log_ok_def)

lemma log_ok_nth:
  "log_ok ls \<Longrightarrow> i < length ls \<Longrightarrow> length (ls ! i) \<le> 160 \<and> CHR 0x00 \<notin> set (ls ! i)"
  by (simp add: log_ok_def list_all_length)

subsection \<open>One call of the callback\<close>

lemma log_text_Cons: "log_text (l # ls) = l @ CHR 0x0A # log_text ls"
  by (simp add: log_text_def)

lemma cb_fill_cases:
  assumes "cb_inv st"
  shows "(cb_fill st = End_of_text \<and> pending st = [])
         \<or> (\<exists>p st1. cb_fill st = Ready p st1
               \<and> pending st = linebuf st1 ! p # pending (st1\<lparr>p_in := Some (Suc p)\<rparr>)
               \<and> cb_inv (st1\<lparr>p_in := Some (Suc p)\<rparr>)
               \<and> dbglines st1 = dbglines st)"
proof -
  obtain p where p: "p_in st = Some p" "p \<le> length (linebuf st)"
    using assms by (auto simp: cb_inv_def split: option.splits)
  have inv: "cb_i st \<le> cb_nrl st" "cb_nrl st \<le> length (dbglines st)" "log_ok (dbglines st)"
    using assms by (simp_all add: cb_inv_def)
  show ?thesis
  proof (cases "p < length (linebuf st)")
    case True
    have "cb_fill st = Ready p st" using p True by (simp add: cb_fill_def)
    moreover have "pending st = linebuf st ! p # pending (st\<lparr>p_in := Some (Suc p)\<rparr>)"
      using p True by (simp add: pending_def Cons_nth_drop_Suc)
    moreover have "cb_inv (st\<lparr>p_in := Some (Suc p)\<rparr>)"
      using True inv by (simp add: cb_inv_def)
    ultimately show ?thesis by simp
  next
    case False
    then have pl: "p = length (linebuf st)" using p by simp
    show ?thesis
    proof (cases "cb_i st = cb_nrl st")
      case True
      then show ?thesis using p pl by (simp add: cb_fill_def pending_def log_text_def)
    next
      case ne: False
      then have i: "cb_i st < cb_nrl st" "cb_i st < length (dbglines st)"
        using inv by simp_all
      let ?l = "dbglines st ! cb_i st"
      have l: "length ?l \<le> 160" "CHR 0x00 \<notin> set ?l"
        using log_ok_nth [OF inv(3) i(2)] by simp_all
      let ?st1 = "st\<lparr>cb_i := cb_i st + 1, linebuf := ?l @ [CHR 0x0A], p_in := Some 0\<rparr>"
      have f: "cb_fill st = Ready 0 ?st1"
        using p pl ne i l
        by (simp add: cb_fill_def cstr_id LINEBUF_SIZE_def DEBUG_BUFFER_SIZE_def Let_def)
      have "take (cb_nrl st - cb_i st) (drop (cb_i st) (dbglines st))
            = ?l # take (cb_nrl st - Suc (cb_i st)) (drop (Suc (cb_i st)) (dbglines st))"
        using i by (metis Cons_nth_drop_Suc Suc_diff_Suc take_Suc_Cons)
      then have "pending st = ?l @ CHR 0x0A # log_text (take (cb_nrl st - Suc (cb_i st))
                                 (drop (Suc (cb_i st)) (dbglines st)))"
        using p pl by (simp add: pending_def log_text_Cons)
      moreover have "pending (?st1\<lparr>p_in := Some (Suc 0)\<rparr>)
            = drop (Suc 0) (?l @ [CHR 0x0A]) @ log_text (take (cb_nrl st - Suc (cb_i st))
                                 (drop (Suc (cb_i st)) (dbglines st)))"
        by (simp add: pending_def)
      ultimately have "pending st = linebuf ?st1 ! 0 # pending (?st1\<lparr>p_in := Some (Suc 0)\<rparr>)"
        by (cases ?l) simp_all
      moreover have "cb_inv (?st1\<lparr>p_in := Some (Suc 0)\<rparr>)"
        using i inv by (simp add: cb_inv_def)
      ultimately show ?thesis using f by simp
    qed
  qed
qed

lemma cb_copy_pending:
  "cb_inv st \<Longrightarrow>
   \<exists>st'. cb_copy n st = Some (take n (pending st), st')
         \<and> pending st' = drop n (pending st) \<and> cb_inv st'
         \<and> dbglines st' = dbglines st
         \<and> (take n (pending st) = [] \<longrightarrow> st' = st)"
proof (induction n arbitrary: st)
  case 0
  then show ?case by simp
next
  case (Suc n)
  from cb_fill_cases [OF Suc.prems]
  show ?case
  proof (elim disjE exE conjE)
    assume "cb_fill st = End_of_text" "pending st = []"
    then show ?thesis using Suc.prems by simp
  next
    fix p st1
    assume f: "cb_fill st = Ready p st1"
      and pe: "pending st = linebuf st1 ! p # pending (st1\<lparr>p_in := Some (Suc p)\<rparr>)"
      and inv: "cb_inv (st1\<lparr>p_in := Some (Suc p)\<rparr>)"
      and d: "dbglines st1 = dbglines st"
    obtain st' where s: "cb_copy n (st1\<lparr>p_in := Some (Suc p)\<rparr>)
          = Some (take n (pending (st1\<lparr>p_in := Some (Suc p)\<rparr>)), st')"
        "pending st' = drop n (pending (st1\<lparr>p_in := Some (Suc p)\<rparr>))" "cb_inv st'"
        "dbglines st' = dbglines (st1\<lparr>p_in := Some (Suc p)\<rparr>)"
      using Suc.IH [OF inv] by blast
    show ?thesis using f pe s d by simp
  qed
qed

lemma cb_reset_inv: "log_ok (dbglines st) \<Longrightarrow> cb_inv (cb_reset st)"
  by (simp add: cb_inv_def cb_reset_def)

lemma cb_reset_pending: "pending (cb_reset st) = log_text (dbglines st)"
  by (simp add: pending_def cb_reset_def)

lemma cb_reset_idem: "cb_reset (cb_reset st) = cb_reset st"
  by (simp add: cb_reset_def)

lemma cb_reset_statics:
  "cb_reset (st\<lparr>cb_i := i, cb_nrl := n, linebuf := b, p_in := q\<rparr>) = cb_reset st"
  by (simp add: cb_reset_def)

subsection \<open>The calls of one response\<close>

lemma chunks_pending:
  "cb_inv (if index = 0 then cb_reset st else st) \<Longrightarrow>
   \<exists>st'. chunks ms index st
           = Some (expected_chunks ms (pending (if index = 0 then cb_reset st else st)), st')
         \<and> dbglines st' = dbglines st"
proof (induction ms arbitrary: index st)
  case Nil
  show ?case by simp
next
  case (Cons m ms)
  let ?s = "if index = 0 then cb_reset st else st"
  obtain s1 where s1: "cb_copy m ?s = Some (take m (pending ?s), s1)"
      "pending s1 = drop m (pending ?s)" "cb_inv s1" "dbglines s1 = dbglines ?s"
      "take m (pending ?s) = [] \<longrightarrow> s1 = ?s"
    using cb_copy_pending [OF Cons.prems, of m] by blast
  let ?index = "index + length (take m (pending ?s))"
  have r: "(if ?index = 0 then cb_reset s1 else s1) = s1"
  proof (cases "?index = 0")
    case True
    then have i0: "index = 0" by simp
    from True have "length (take m (pending ?s)) = 0"
      by (rule add_is_0 [THEN iffD1, THEN conjunct2])
    then have "take m (pending ?s) = []" by (simp only: length_0_conv)
    then have "s1 = cb_reset st" using s1(5) i0 by simp
    then have "cb_reset s1 = s1" by (simp add: cb_reset_idem)
    then show ?thesis unfolding if_P [OF True] .
  next
    case False
    show ?thesis unfolding if_not_P [OF False] ..
  qed
  have "cb_inv (if ?index = 0 then cb_reset s1 else s1)"
    unfolding r by (rule s1(3))
  from Cons.IH [OF this]
  obtain st' where st': "chunks ms ?index s1 = Some (expected_chunks ms (pending s1), st')"
      "dbglines st' = dbglines s1"
    unfolding r by blast
  have d: "dbglines ?s = dbglines st" by (simp add: cb_reset_def)
  have "cb_logging m index st = Some (take m (pending ?s), s1)"
    using s1(1) by (simp add: cb_logging_def)
  then show ?case using st' s1(2,4) d by simp
qed

lemma length_expected_chunks: "length (expected_chunks ms t) = length ms"
  by (induction ms arbitrary: t) simp_all

lemma concat_expected_chunks: "concat (expected_chunks ms t) = take (sum_list ms) t"
  by (induction ms arbitrary: t) (simp_all add: take_add)

lemma take_expected_chunks: "take n (expected_chunks ms t) = expected_chunks (take n ms) t"
proof (induction ms arbitrary: n t)
  case Nil
  show ?case by simp
next
  case (Cons m ms)
  then show ?case by (cases n) simp_all
qed

lemma nth_expected_chunks:
  "k < length ms \<Longrightarrow>
   expected_chunks ms t ! k = take (ms ! k) (drop (sum_list (take k ms)) t)"
proof (induction ms arbitrary: k t)
  case Nil
  then show ?case by simp
next
  case (Cons m ms)
  then show ?case by (cases k) (simp_all add: add.commute)
qed

lemma sum_list_take_mono: "i \<le> j \<Longrightarrow> sum_list (take i ms) \<le> sum_list (take j (ms :: nat list))"
proof (induction ms arbitrary: i j)
  case Nil
  show ?case by simp
next
  case (Cons m ms)
  show ?case
  proof (cases i)
    case 0
    then show ?thesis by simp
  next
    case (Suc i')
    then obtain j' where "j = Suc j'" "i' \<le> j'" using Cons.prems by (cases j) simp_all
    then show ?thesis using Suc Cons.IH [of i' j'] by simp
  qed
qed

lemma short_chunk_ends:
  assumes "k < length ms" and "length (expected_chunks ms t ! k) < ms ! k"
  shows "concat (take (Suc k) (expected_chunks ms t)) = t
         \<and> (\<forall>j < length ms. k < j \<longrightarrow> expected_chunks ms t ! j = [])"
proof -
  let ?a = "sum_list (take k ms)"
  have "length (take (ms ! k) (drop ?a t)) < ms ! k"
    using assms by (simp add: nth_expected_chunks)
  then have "length t - ?a < ms ! k" by simp
  then have e: "length t \<le> ?a + ms ! k" by simp
  have s: "sum_list (take (Suc k) ms) = ?a + ms ! k"
    using assms(1) by (simp add: take_Suc_conv_app_nth)
  have "concat (take (Suc k) (expected_chunks ms t)) = take (sum_list (take (Suc k) ms)) t"
    by (simp only: take_expected_chunks concat_expected_chunks)
  then have c: "concat (take (Suc k) (expected_chunks ms t)) = t"
    using e s by simp
  have "expected_chunks ms t ! j = []" if "j < length ms" "k < j" for j
  proof -
    have "sum_list (take (Suc k) ms) \<le> sum_list (take j ms)"
      using that(2) by (intro sum_list_take_mono) simp
    then have "length t \<le> sum_list (take j ms)" using e s by simp
    then show ?thesis using that(1) by (simp add: nth_expected_chunks)
  qed
  then show ?thesis using c by blast
qed

lemma short_chunk_exists:
  "length t < sum_list ms \<Longrightarrow> \<exists>k < length ms. length (expected_chunks ms t ! k) < ms ! k"
proof (induction ms arbitrary: t)
  case Nil
  then show ?case by simp
next
  case (Cons m ms)
  show ?case
  proof (cases "length t < m")
    case True
    then have "length (expected_chunks (m # ms) t ! 0) < (m # ms) ! 0" by simp
    then show ?thesis by blast
  next
    case False
    then have "length (drop m t) < sum_list ms" using Cons.prems by simp
    from Cons.IH [OF this] obtain k where "k < length ms"
        "length (expected_chunks ms (drop m t) ! k) < ms ! k" by blast
    then have "Suc k < length (m # ms)"
        "length (expected_chunks (m # ms) t ! Suc k) < (m # ms) ! Suc k" by simp_all
    then show ?thesis by blast
  qed
qed

lemma two_lines_run:
  "two_lines = fst (run [DbgPrint 9000 ''one'', DbgPrint 9000 ''two''] (power_on (replicate 512 0)))"
  by (simp add: two_lines_def)

text \<open>
  Claim C7. On a log whose lines \<open>dbgprint\<close> stored, the calls of one response, the first
  with position 0 and each later one with the number of bytes returned so far, all
  return, whatever sizes they ask for and whatever the statics held before. A call with
  position 0 gives the same result from any earlier iteration state. Chunk \<open>k\<close> is the
  next \<open>ms ! k\<close> characters of the text of the log (every line in the order stored, each
  followed by a newline), fewer only when the text ends; so the chunks concatenated are
  the text up to the total size asked for. A chunk shorter than asked for ends the text:
  the chunks up to it concatenated are the whole text and every later chunk is empty.
  When more is asked for in total than the text is long, such a short chunk occurs.
\<close>

theorem log_stream_chunks:
  assumes "log_ok (dbglines st)"
  shows "\<exists>cs st'. chunks ms 0 st = Some (cs, st')
           \<and> cb_logging m 0 (st\<lparr>cb_i := i, cb_nrl := n, linebuf := b, p_in := q\<rparr>)
               = cb_logging m 0 st
           \<and> length cs = length ms
           \<and> (\<forall>k < length ms.
                 cs ! k = take (ms ! k) (drop (sum_list (take k ms)) (log_text (dbglines st))))
           \<and> concat cs = take (sum_list ms) (log_text (dbglines st))
           \<and> (\<forall>k < length ms. length (cs ! k) < ms ! k \<longrightarrow>
                 concat (take (Suc k) cs) = log_text (dbglines st)
                 \<and> (\<forall>j < length ms. k < j \<longrightarrow> cs ! j = []))
           \<and> (length (log_text (dbglines st)) < sum_list ms \<longrightarrow>
                 (\<exists>k < length ms. length (cs ! k) < ms ! k))"
proof -
  let ?t = "log_text (dbglines st)"
  have "cb_inv (if (0::nat) = 0 then cb_reset st else st)"
    using assms by (simp add: cb_reset_inv)
  from chunks_pending [OF this, of ms]
  obtain st' where c: "chunks ms 0 st = Some (expected_chunks ms ?t, st')"
    by (auto simp: cb_reset_pending)
  have r: "cb_logging m 0 (st\<lparr>cb_i := i, cb_nrl := n, linebuf := b, p_in := q\<rparr>)
           = cb_logging m 0 st"
    by (simp add: cb_logging_def cb_reset_statics)
  show ?thesis
    using c r length_expected_chunks [of ms ?t] concat_expected_chunks [of ms ?t]
      nth_expected_chunks [of _ ms ?t] short_chunk_ends [of _ ms ?t]
      short_chunk_exists [of ?t ms]
    by (intro exI [of _ "expected_chunks ms ?t"] exI [of _ st']) simp
qed

theorem log_stream_chunks_witness:
  "map_option fst (chunks [5, 7, 100, 10] 0 two_lines)
     = Some [''00:00'', '':00 - o'', ''ne'' @ [CHR 0x0A] @ ''00:00:00 - two'' @ [CHR 0x0A], []]"
proof -
  let ?ms = "[5, 7, 100, 10] :: nat list"
  have ok: "log_ok (dbglines two_lines)"
    unfolding two_lines_run by (rule log_ok_reachable)
  have t: "log_text (dbglines two_lines)
           = ''00:00:00 - one'' @ [CHR 0x0A] @ ''00:00:00 - two'' @ [CHR 0x0A]"
    by (simp add: two_lines_log log_text_def)
  from log_stream_chunks [OF ok, where ms = ?ms and m = 0 and i = 0 and n = 0
      and b = "[]" and q = None]
  obtain cs st' where c: "chunks ?ms 0 two_lines = Some (cs, st')"
    and l: "length cs = length ?ms"
    and n: "\<forall>k < length ?ms. cs ! k = take (?ms ! k)
              (drop (sum_list (take k ?ms)) (log_text (dbglines two_lines)))"
    by blast
  have n0: "cs ! 0 = take (?ms ! 0) (drop (sum_list (take 0 ?ms)) (log_text (dbglines two_lines)))"
    using n by simp
  have n1: "cs ! 1 = take (?ms ! 1) (drop (sum_list (take 1 ?ms)) (log_text (dbglines two_lines)))"
    using n by simp
  have n2: "cs ! 2 = take (?ms ! 2) (drop (sum_list (take 2 ?ms)) (log_text (dbglines two_lines)))"
    using n by simp
  have n3: "cs ! 3 = take (?ms ! 3) (drop (sum_list (take 3 ?ms)) (log_text (dbglines two_lines)))"
    using n by simp
  have e0: "cs ! 0 = ''00:00''" unfolding n0 t by simp
  have e1: "cs ! 1 = '':00 - o''" unfolding n1 t by simp
  have e2: "cs ! 2 = ''ne'' @ [CHR 0x0A] @ ''00:00:00 - two'' @ [CHR 0x0A]"
    unfolding n2 t by simp
  have e3: "cs ! 3 = []" unfolding n3 t by simp
  have "length cs = 4" using l by simp
  then obtain a b c d where "cs = [a, b, c, d]"
    by (cases cs; cases "tl cs"; cases "tl (tl cs)"; cases "tl (tl (tl cs))") auto
  then have "cs = [''00:00'', '':00 - o'', ''ne'' @ [CHR 0x0A] @ ''00:00:00 - two'' @ [CHR 0x0A], []]"
    using e0 e1 e2 e3 by simp
  then show ?thesis using c by simp
qed

end
